theory Spec2Isabelle
  imports Main "HOL-Library.Word"
begin

text \<open>
  A model of \<^verbatim>\<open>src/components/Editor.js\<close>: the class \<^verbatim>\<open>SimpleAwareness\<close>, the handlers
  that \<^verbatim>\<open>handleEditorDidMount\<close> installs on the socket, the document and the editor, the
  two timer callbacks and the cleanup, run by an event loop with a clock in milliseconds.
  The Yjs document, the editor binding and the transport are the module's collaborators:
  what the module asks of them is recorded, what they do is not modelled.
\<close>

section \<open>JavaScript values and the object heap\<close>

text \<open>
  The values that travel through \<^verbatim>\<open>src/components/Editor.js\<close>: awareness states, client
  ids and message fields are JSON-like values or \<^verbatim>\<open>undefined\<close>. An object is a heap
  cell reached through a reference, so that two holders of the same state object share
  its fields, as they do in JavaScript. Numbers are the integral ones (the JSON numbers
  the module compares and stores; \<^verbatim>\<open>NaN\<close> is not a JSON value), so strict equality
  \<^verbatim>\<open>===\<close> and the key equality of \<^verbatim>\<open>Map\<close> are HOL equality, with objects compared
  by reference.
\<close>

type_synonym addr = nat

datatype jsval = Undefined | Null | JBool bool | JNum int | JStr string | JRef addr

text \<open>
  An object: its own properties, by name. The objects of the heap are plain objects, as
  an object literal or a JSON object is: extensible, with writable data properties (an
  array, with its own \<^verbatim>\<open>length\<close>, is not among them). The prototype of an object is
  \<^verbatim>\<open>Object.prototype\<close> (what a literal or a JSON object has), \<^verbatim>\<open>null\<close> or an object
  of the heap. The one accessor in reach of such an object is the property
  \<^verbatim>\<open>__proto__\<close> of \<^verbatim>\<open>Object.prototype\<close>.
\<close>

type_synonym jsobject = "string \<rightharpoonup> jsval"

datatype proto = ObjectPrototype | NoPrototype | ProtoObject addr

text \<open>ToBoolean, as \<^verbatim>\<open>||\<close> applies it.\<close>

fun truthy :: "jsval \<Rightarrow> bool" where
  "truthy Undefined = False"
| "truthy Null = False"
| "truthy (JBool b) = b"
| "truthy (JNum n) = (n \<noteq> 0)"
| "truthy (JStr s) = (s \<noteq> [])"
| "truthy (JRef a) = True"

datatype error = TypeError

section \<open>Messages sent on the socket\<close>

record user =
  name :: string
  color :: string

record position =
  lineNumber :: int
  column :: int

text \<open>
  One constructor per \<^verbatim>\<open>socket.emit\<close> of the module, with the fields of its payload:
  \<^verbatim>\<open>yjs-awareness {roomId, update: {clientID, state}}\<close>,
  \<^verbatim>\<open>yjs-sync {roomId, update}\<close>,
  \<^verbatim>\<open>cursor-position {roomId, position, user, userId}\<close> and
  \<^verbatim>\<open>save-code {roomId, content, language}\<close>.
\<close>

datatype out_msg =
    YjsAwarenessMsg string jsval jsval
  | YjsSyncMsg string "int list"
  | CursorPositionMsg string position user jsval
  | SaveCodeMsg string string string

section \<open>The class SimpleAwareness\<close>

text \<open>
  A handler is a JavaScript function, known by its identity. The \<^verbatim>\<open>Set\<close> of handlers
  of an event is the list of its members in insertion order, which is the order a
  \<^verbatim>\<open>for ... of\<close> loop visits them in. The field \<^verbatim>\<open>meta\<close> of the class is never read
  or written after the constructor and is left out; \<^verbatim>\<open>socket\<close> is the socket of the
  enclosing component (section below).
\<close>

type_synonym handler = nat

record awareness =
  roomId :: string
  clientID :: jsval
  states :: "jsval \<rightharpoonup> jsval"
  handlers :: "string \<rightharpoonup> handler list"

text \<open>\<^verbatim>\<open>Set.prototype.add\<close> and \<^verbatim>\<open>Set.prototype.delete\<close>.\<close>

definition set_add :: "'a \<Rightarrow> 'a list \<Rightarrow> 'a list" where
  "set_add h hs = (if h \<in> set hs then hs else hs @ [h])"

definition set_delete :: "'a \<Rightarrow> 'a list \<Rightarrow> 'a list" where
  "set_delete h hs = removeAll h hs"

text \<open>\<^verbatim>\<open>Map.prototype.get\<close>: \<^verbatim>\<open>undefined\<close> for a key that is not there.\<close>

definition map_get :: "('k \<rightharpoonup> jsval) \<Rightarrow> 'k \<Rightarrow> jsval" where
  "map_get m k = (case m k of None \<Rightarrow> Undefined | Some v \<Rightarrow> v)"

definition constructor :: "string \<Rightarrow> jsval \<Rightarrow> awareness" where
  "constructor room cid =
     \<lparr>roomId = room, clientID = cid, states = Map.empty, handlers = Map.empty\<rparr>"

text \<open>
  \<^verbatim>\<open>on(event, handler)\<close>: the event gets an empty set when it has none, then the handler
  is added to the event's set.
\<close>

definition on :: "string \<Rightarrow> handler \<Rightarrow> awareness \<Rightarrow> awareness" where
  "on event h a =
     (let hm = (if handlers a event = None then (handlers a)(event \<mapsto> []) else handlers a)
      in case hm event of
           None \<Rightarrow> a\<lparr>handlers := hm\<rparr>
         | Some hs \<Rightarrow> a\<lparr>handlers := hm(event \<mapsto> set_add h hs)\<rparr>)"

definition off :: "string \<Rightarrow> handler \<Rightarrow> awareness \<Rightarrow> awareness" where
  "off event h a =
     (case handlers a event of
        None \<Rightarrow> a
      | Some hs \<Rightarrow> a\<lparr>handlers := (handlers a)(event \<mapsto> set_delete h hs)\<rparr>)"

text \<open>The list that stands for the \<^verbatim>\<open>Set\<close> of an event's handlers has no element twice.\<close>

definition distinct_handlers :: "awareness \<Rightarrow> string \<Rightarrow> bool" where
  "distinct_handlers a event = (case handlers a event of None \<Rightarrow> True | Some hs \<Rightarrow> distinct hs)"

definition getLocalState :: "awareness \<Rightarrow> jsval" where
  "getLocalState a = map_get (states a) (clientID a)"

definition getStates :: "awareness \<Rightarrow> (jsval \<rightharpoonup> jsval)" where
  "getStates a = states a"

section \<open>The editor widget, timers and the component's state\<close>

text \<open>
  A remote cursor's decoration, as \<^verbatim>\<open>renderRemoteCursor\<close> builds it: an empty range at the
  position, and class names \<^verbatim>\<open>remote-cursor-${userId}\<close> and
  \<^verbatim>\<open>remote-cursor-label-${userId}\<close> that depend on the user id only, kept as the owner.
\<close>

record decoration =
  owner :: jsval
  at :: position

text \<open>
  What the module uses of the Monaco editor: \<^verbatim>\<open>getValue()\<close> (the content),
  \<^verbatim>\<open>deltaDecorations(old, new)\<close> and the flag \<^verbatim>\<open>_isDisposed\<close> it reads. The live
  decorations carry the ids the editor gave them; \<open>removal_log\<close> lists the ids the
  module has asked the editor to remove, one entry per request. The editor is the
  external widget: its members are what its interface documents for an editor in use,
  and the theorems of the claims call them on an editor that is not disposed.
\<close>

record editor_state =
  content :: string
  decorations :: "(nat \<times> decoration) list"
  next_decoration :: nat
  removal_log :: "nat list"
  isDisposed :: bool

definition getValue :: "editor_state \<Rightarrow> string" where
  "getValue ed = content ed"

text \<open>
  \<^verbatim>\<open>editor.deltaDecorations(oldDecorations, newDecorations)\<close> removes the decorations
  with the old ids, adds the new ones under ids never used before and returns these ids.
\<close>

definition deltaDecorations ::
  "nat list \<Rightarrow> decoration list \<Rightarrow> editor_state \<Rightarrow> nat list \<times> editor_state" where
  "deltaDecorations old new ed =
     (let ids = [next_decoration ed ..< next_decoration ed + length new]
      in (ids,
          ed\<lparr>decorations := filter (\<lambda>(i, d). i \<notin> set old) (decorations ed) @ zip ids new,
             next_decoration := next_decoration ed + length new,
             removal_log := removal_log ed @ old\<rparr>))"

text \<open>
  The two closures the module hands to \<^verbatim>\<open>setTimeout\<close>: the save of the content, and the
  removal of the decorations a call of \<^verbatim>\<open>renderRemoteCursor\<close> created.
\<close>

datatype callback = SaveCb | ExpireCb "nat list"

record timer =
  tid :: nat
  due :: nat
  cb :: callback

text \<open>What \<^verbatim>\<open>setRemoteCursors\<close> is asked to store under a key.\<close>

datatype cursor_entry = AwarenessEntry jsval | CursorEntry position user

text \<open>The props of the component, as the closures of \<^verbatim>\<open>handleEditorDidMount\<close> hold them.\<close>

record props =
  prop_roomId :: string
  prop_currentUser :: user
  prop_language :: string

text \<open>
  The state of a mounted component. Time is in milliseconds. \<open>emitted\<close> is the log of
  \<^verbatim>\<open>socket.emit\<close> calls, each with the time of the call; \<open>calls\<close> the log of handler
  invocations by \<^verbatim>\<open>notify\<close>, each with the states map the handler was given;
  \<open>applied\<close> the log of updates given to \<^verbatim>\<open>Y.applyUpdate\<close>; \<open>cursor_updates\<close> the log
  of \<^verbatim>\<open>setRemoteCursors\<close> calls (key and value). \<open>socket_id\<close> is the socket's \<^verbatim>\<open>id\<close>
  as the module reads it; \<open>socket_listeners\<close> the events the socket has a listener for.
  \<open>protos\<close> lists the objects whose prototype has been set, the latest first; every
  other object has \<^verbatim>\<open>Object.prototype\<close>.
\<close>

record world =
  now :: nat
  props :: props
  socket_id :: jsval
  socket_listeners :: "string set"
  emitted :: "(nat \<times> out_msg) list"
  heap :: "addr \<Rightarrow> jsobject"
  protos :: "(addr \<times> proto) list"
  next_addr :: addr
  awareness :: awareness
  calls :: "(handler \<times> (jsval \<rightharpoonup> jsval)) list"
  editor :: editor_state
  timers :: "timer list"
  next_timer :: nat
  saveTimeout :: "nat option"
  applied :: "8 word list list"
  cursor_updates :: "(jsval \<times> cursor_entry) list"
  binding_destroyed :: bool
  ydoc_destroyed :: bool

definition emit :: "out_msg \<Rightarrow> world \<Rightarrow> world" where
  "emit m w = w\<lparr>emitted := emitted w @ [(now w, m)]\<rparr>"

text \<open>\<^verbatim>\<open>{}\<close> and an object literal: a new object at an address not used before.\<close>

definition new_object :: "jsobject \<Rightarrow> world \<Rightarrow> addr \<times> world" where
  "new_object obj w =
     (next_addr w,
      w\<lparr>heap := (heap w)(next_addr w := obj),
        protos := filter (\<lambda>(a, p). a \<noteq> next_addr w) (protos w),
        next_addr := Suc (next_addr w)\<rparr>)"

subsection \<open>Assigning a property\<close>

definition prototype_of :: "world \<Rightarrow> addr \<Rightarrow> proto" where
  "prototype_of w a = (case map_of (protos w) a of None \<Rightarrow> ObjectPrototype | Some p \<Rightarrow> p)"

text \<open>
  Prototype chains have no cycle, since the setter below refuses to make one, so a chain
  has at most one object more than prototypes were set. The walks up a chain take two
  steps more than that number as fuel, enough for every chain without a cycle.
\<close>

definition chain_bound :: "world \<Rightarrow> nat" where
  "chain_bound w = length (protos w) + 2"

text \<open>
  The lookup of \<^verbatim>\<open>__proto__\<close> from an object, up its chain, finds the accessor of
  \<^verbatim>\<open>Object.prototype\<close>: no object on the way has an own property of this name, and the
  chain does not end in \<^verbatim>\<open>null\<close> before.
\<close>

fun inherits_proto_setter :: "nat \<Rightarrow> world \<Rightarrow> addr \<Rightarrow> bool" where
  "inherits_proto_setter 0 w a = False"
| "inherits_proto_setter (Suc n) w a =
     (if heap w a ''__proto__'' \<noteq> None then False
      else case prototype_of w a of
             ObjectPrototype \<Rightarrow> True
           | NoPrototype \<Rightarrow> False
           | ProtoObject q \<Rightarrow> inherits_proto_setter n w q)"

text \<open>The object \<open>a\<close> is on the chain that starts with the prototype \<open>p\<close>.\<close>

fun on_chain :: "nat \<Rightarrow> world \<Rightarrow> proto \<Rightarrow> addr \<Rightarrow> bool" where
  "on_chain 0 w p a = True"
| "on_chain (Suc n) w p a =
     (case p of
        ProtoObject q \<Rightarrow> q = a \<or> on_chain n w (prototype_of w q) a
      | _ \<Rightarrow> False)"

text \<open>
  The object's internal method SetPrototypeOf, and the setter of \<^verbatim>\<open>__proto__\<close> called on
  an object: a value that is neither an object nor \<^verbatim>\<open>null\<close> is ignored; a prototype that
  would close a cycle is refused with a TypeError.
\<close>

definition SetPrototypeOf :: "addr \<Rightarrow> proto \<Rightarrow> world \<Rightarrow> error + world" where
  "SetPrototypeOf a p w =
     (if p = prototype_of w a then Inr w
      else if on_chain (chain_bound w) w p a then Inl TypeError
      else Inr (w\<lparr>protos := (a, p) # protos w\<rparr>))"

definition proto_setter :: "addr \<Rightarrow> jsval \<Rightarrow> world \<Rightarrow> error + world" where
  "proto_setter a v w =
     (case v of
        JRef q \<Rightarrow> SetPrototypeOf a (ProtoObject q) w
      | Null \<Rightarrow> SetPrototypeOf a NoPrototype w
      | _ \<Rightarrow> Inr w)"

text \<open>
  \<^verbatim>\<open>s[field] = value\<close> in strict code (the module is an ES module). On an object the
  value becomes an own property, unless the field is \<^verbatim>\<open>__proto__\<close> and the object
  inherits the accessor: then the setter runs and no own property is made. On a
  primitive the assignment throws a TypeError, unless the field is \<^verbatim>\<open>__proto__\<close>: the
  setter is found through the primitive's wrapper and returns without doing anything.
  On \<^verbatim>\<open>undefined\<close> and \<^verbatim>\<open>null\<close> it throws.
\<close>

definition assign_property :: "jsval \<Rightarrow> string \<Rightarrow> jsval \<Rightarrow> world \<Rightarrow> error + world" where
  "assign_property s field v w =
     (case s of
        JRef a \<Rightarrow>
          if field = ''__proto__'' \<and> inherits_proto_setter (chain_bound w) w a
          then proto_setter a v w
          else Inr (w\<lparr>heap := (heap w)(a := (heap w a)(field \<mapsto> v))\<rparr>)
      | Undefined \<Rightarrow> Inl TypeError
      | Null \<Rightarrow> Inl TypeError
      | _ \<Rightarrow> if field = ''__proto__'' then Inr w else Inl TypeError)"

subsection \<open>The methods of SimpleAwareness that reach the socket and the handlers\<close>

text \<open>
  \<^verbatim>\<open>notify(event)\<close> calls each handler of the event, in the set's order, with
  \<^verbatim>\<open>{ states: this.states }\<close>. What a handler does with it is the subscriber's own code:
  the call is recorded.
\<close>

definition notify :: "string \<Rightarrow> world \<Rightarrow> world" where
  "notify event w =
     (case handlers (awareness w) event of
        None \<Rightarrow> w
      | Some hs \<Rightarrow> w\<lparr>calls := calls w @ map (\<lambda>h. (h, states (awareness w))) hs\<rparr>)"

definition setLocalState :: "jsval \<Rightarrow> world \<Rightarrow> world" where
  "setLocalState state w =
     (let a = awareness w;
          w1 = w\<lparr>awareness := a\<lparr>states := (states a)(clientID a \<mapsto> state)\<rparr>\<rparr>;
          w2 = emit (YjsAwarenessMsg (roomId a) (clientID a) state) w1
      in notify ''change'' w2)"

text \<open>
  \<^verbatim>\<open>const s = this.getLocalState() || {}; s[field] = value; this.setLocalState(s);\<close>
  When the assignment throws, \<^verbatim>\<open>setLocalState\<close> is not reached and nothing that can be
  observed has changed.
\<close>

definition setLocalStateField :: "string \<Rightarrow> jsval \<Rightarrow> world \<Rightarrow> error + world" where
  "setLocalStateField field v w =
     (let s0 = getLocalState (awareness w);
          (s, w1) = (if truthy s0 then (s0, w)
                     else (let (a, w0) = new_object Map.empty w in (JRef a, w0)))
      in case assign_property s field v w1 of
           Inl e \<Rightarrow> Inl e
         | Inr w2 \<Rightarrow> Inr (setLocalState s w2))"

subsection \<open>Timers\<close>

text \<open>
  \<^verbatim>\<open>setTimeout(cb, delay)\<close> returns a new timer id; \<^verbatim>\<open>clearTimeout(id)\<close> drops the
  pending timer of that id, and does nothing for \<^verbatim>\<open>undefined\<close> or a timer that has
  fired.
\<close>

definition setTimeout :: "callback \<Rightarrow> nat \<Rightarrow> world \<Rightarrow> nat \<times> world" where
  "setTimeout c delay w =
     (next_timer w,
      w\<lparr>timers := timers w @ [\<lparr>tid = next_timer w, due = now w + delay, cb = c\<rparr>],
        next_timer := Suc (next_timer w)\<rparr>)"

definition clearTimeout :: "nat option \<Rightarrow> world \<Rightarrow> world" where
  "clearTimeout t w =
     (case t of
        None \<Rightarrow> w
      | Some i \<Rightarrow> w\<lparr>timers := filter (\<lambda>tm. tid tm \<noteq> i) (timers w)\<rparr>)"

subsection \<open>The delta's wire encoding\<close>

text \<open>
  \<^verbatim>\<open>Array.from(update)\<close> lists the bytes of a \<^verbatim>\<open>Uint8Array\<close> as numbers;
  \<^verbatim>\<open>new Uint8Array(update)\<close> converts each number of an array to a byte (ToUint8:
  the number modulo 256).
\<close>

definition Array_from :: "8 word list \<Rightarrow> int list" where
  "Array_from u = map uint u"

definition Uint8Array :: "int list \<Rightarrow> 8 word list" where
  "Uint8Array xs = map word_of_int xs"

subsection \<open>The handlers that handleEditorDidMount installs\<close>

text \<open>
  A handler is given the fields of its message that it reads: the messages are the
  well-formed ones of the protocol (\<^verbatim>\<open>update\<close> and \<^verbatim>\<open>position\<close> are objects).
\<close>

text \<open>\<^verbatim>\<open>ydoc.on('update', ...)\<close>\<close>

definition on_ydoc_update :: "8 word list \<Rightarrow> world \<Rightarrow> world" where
  "on_ydoc_update update w = emit (YjsSyncMsg (prop_roomId (props w)) (Array_from update)) w"

text \<open>\<^verbatim>\<open>socket.on('yjs-sync', ...)\<close>: the update goes to \<^verbatim>\<open>Y.applyUpdate\<close>.\<close>

definition on_yjs_sync :: "int list \<Rightarrow> world \<Rightarrow> world" where
  "on_yjs_sync update w = w\<lparr>applied := applied w @ [Uint8Array update]\<rparr>"

text \<open>\<^verbatim>\<open>socket.on('yjs-awareness', ...)\<close>, with the message's \<^verbatim>\<open>update.clientID\<close> and
  \<^verbatim>\<open>update.state\<close>.\<close>

definition on_yjs_awareness :: "jsval \<Rightarrow> jsval \<Rightarrow> world \<Rightarrow> world" where
  "on_yjs_awareness cid state w =
     (if cid \<noteq> socket_id w then
        (let a = awareness w;
             w1 = w\<lparr>awareness := a\<lparr>states := (states a)(cid \<mapsto> state)\<rparr>\<rparr>;
             w2 = notify ''change'' w1
         in w2\<lparr>cursor_updates := cursor_updates w2 @ [(cid, AwarenessEntry state)]\<rparr>)
      else w)"

text \<open>\<^verbatim>\<open>editor.onDidChangeCursorPosition(...)\<close>\<close>

definition onDidChangeCursorPosition :: "position \<Rightarrow> world \<Rightarrow> world" where
  "onDidChangeCursorPosition pos w =
     emit (CursorPositionMsg (prop_roomId (props w))
             \<lparr>lineNumber = lineNumber pos, column = column pos\<rparr>
             (prop_currentUser (props w)) (socket_id w)) w"

text \<open>
  \<^verbatim>\<open>renderRemoteCursor(editor, monaco, userId, position, user)\<close>: one decoration is added
  with \<^verbatim>\<open>deltaDecorations([], [...])\<close>, and a timer of 3000 ms is set to remove the ids
  that call returned.
\<close>

definition renderRemoteCursor :: "jsval \<Rightarrow> position \<Rightarrow> user \<Rightarrow> world \<Rightarrow> world" where
  "renderRemoteCursor userId pos usr w =
     (let (ids, ed) = deltaDecorations [] [\<lparr>owner = userId, at = pos\<rparr>] (editor w);
          (t, w1) = setTimeout (ExpireCb ids) 3000 (w\<lparr>editor := ed\<rparr>)
      in w1)"

text \<open>\<^verbatim>\<open>socket.on('remote-cursor', ...)\<close>\<close>

definition on_remote_cursor :: "jsval \<Rightarrow> position \<Rightarrow> user \<Rightarrow> world \<Rightarrow> world" where
  "on_remote_cursor userId pos usr w =
     renderRemoteCursor userId pos usr
       (w\<lparr>cursor_updates := cursor_updates w @ [(userId, CursorEntry pos usr)]\<rparr>)"

text \<open>
  \<^verbatim>\<open>editor.onDidChangeModelContent(...)\<close>: the pending save is cleared and a new one is
  set, 2000 ms ahead.
\<close>

definition onDidChangeModelContent :: "world \<Rightarrow> world" where
  "onDidChangeModelContent w =
     (let w1 = clearTimeout (saveTimeout w) w;
          (t, w2) = setTimeout SaveCb 2000 w1
      in w2\<lparr>saveTimeout := Some t\<rparr>)"

text \<open>
  The two timer callbacks. In the second, \<^verbatim>\<open>editor\<close> is the editor that was mounted, an
  object, so the test \<^verbatim>\<open>editor && !editor._isDisposed\<close> is the test of the flag.
\<close>

definition save_callback :: "world \<Rightarrow> world" where
  "save_callback w =
     emit (SaveCodeMsg (prop_roomId (props w)) (getValue (editor w)) (prop_language (props w))) w"

definition expire_callback :: "nat list \<Rightarrow> world \<Rightarrow> world" where
  "expire_callback ids w =
     (if \<not> isDisposed (editor w)
      then w\<lparr>editor := snd (deltaDecorations ids [] (editor w))\<rparr>
      else w)"

text \<open>
  The cleanup of the \<^verbatim>\<open>useEffect\<close>: the binding and the document are destroyed and the
  three socket listeners are removed.
\<close>

definition cleanup :: "world \<Rightarrow> world" where
  "cleanup w =
     w\<lparr>binding_destroyed := True, ydoc_destroyed := True,
       socket_listeners := socket_listeners w - {''yjs-sync'', ''yjs-awareness'', ''remote-cursor''}\<rparr>"

text \<open>
  \<^verbatim>\<open>handleEditorDidMount(editor, monaco)\<close>, at time \<open>t\<close>, for a socket whose id is \<open>sid\<close>:
  the awareness is created under the socket's id, the local user is stored with
  \<^verbatim>\<open>setLocalStateField('user', {name, color})\<close> and the listeners are installed.
\<close>

definition initial_world :: "props \<Rightarrow> jsval \<Rightarrow> nat \<Rightarrow> editor_state \<Rightarrow> world" where
  "initial_world p sid t ed =
     \<lparr>now = t, props = p, socket_id = sid, socket_listeners = {}, emitted = [],
      heap = (\<lambda>_. Map.empty), protos = [], next_addr = 0,
      awareness = constructor (prop_roomId p) sid,
      calls = [], editor = ed, timers = [], next_timer = 1, saveTimeout = None,
      applied = [], cursor_updates = [], binding_destroyed = False, ydoc_destroyed = False\<rparr>"

definition handleEditorDidMount ::
  "props \<Rightarrow> jsval \<Rightarrow> nat \<Rightarrow> editor_state \<Rightarrow> error + world" where
  "handleEditorDidMount p sid t ed =
     (let w0 = initial_world p sid t ed;
          (u, w1) = new_object [''name'' \<mapsto> JStr (name (prop_currentUser p)),
                                ''color'' \<mapsto> JStr (color (prop_currentUser p))] w0
      in case setLocalStateField ''user'' (JRef u) w1 of
           Inl e \<Rightarrow> Inl e
         | Inr w2 \<Rightarrow>
             Inr (w2\<lparr>socket_listeners :=
                       socket_listeners w2 \<union> {''yjs-sync'', ''yjs-awareness'', ''remote-cursor''}\<rparr>))"

subsection \<open>The event loop\<close>

text \<open>
  Timers fire in the order of their due times, and in the order they were set when these
  are equal. \<open>earliest\<close> is the pending timer that fires next.
\<close>

fun earliest :: "timer list \<Rightarrow> timer option" where
  "earliest [] = None"
| "earliest (x # xs) =
     (case earliest xs of
        None \<Rightarrow> Some x
      | Some y \<Rightarrow> if due x \<le> due y then Some x else Some y)"

definition next_due :: "nat \<Rightarrow> timer list \<Rightarrow> timer option" where
  "next_due t ts =
     (case earliest ts of
        None \<Rightarrow> None
      | Some tm \<Rightarrow> if due tm \<le> t then Some tm else None)"

definition fire :: "timer \<Rightarrow> world \<Rightarrow> world" where
  "fire tm w = (case cb tm of SaveCb \<Rightarrow> save_callback w | ExpireCb ids \<Rightarrow> expire_callback ids w)"

lemma earliest_mem: "earliest ts = Some tm \<Longrightarrow> tm \<in> set ts"
  by (induction ts arbitrary: tm) (auto split: option.splits if_splits)

lemma next_due_mem: "next_due t ts = Some tm \<Longrightarrow> tm \<in> set ts"
  by (auto simp: next_due_def earliest_mem split: option.splits if_splits)

lemma timers_fire [simp]: "timers (fire tm w) = timers w"
  by (simp add: fire_def save_callback_def expire_callback_def emit_def split: callback.splits)

text \<open>
  Time passes up to \<open>t\<close>: every timer due by then fires, at its due time, after it has
  left the pending timers.
\<close>

function run_timers :: "nat \<Rightarrow> world \<Rightarrow> world" where
  "run_timers t w =
     (case next_due t (timers w) of
        None \<Rightarrow> w\<lparr>now := max (now w) t\<rparr>
      | Some tm \<Rightarrow>
          run_timers t (fire tm (w\<lparr>timers := remove1 tm (timers w), now := max (now w) (due tm)\<rparr>)))"
  by pat_completeness auto
termination
proof (relation "measure (\<lambda>(t, w). length (timers w))")
  show "wf (measure (\<lambda>(t, w). length (timers w)))" by simp
next
  fix t :: nat and w :: world and tm :: timer
  assume "next_due t (timers w) = Some tm"
  then have "tm \<in> set (timers w)" by (rule next_due_mem)
  then have "length (remove1 tm (timers w)) < length (timers w)"
    using length_pos_if_in_set [of tm "timers w"] by (simp add: length_remove1)
  then show "((t, fire tm (w\<lparr>timers := remove1 tm (timers w), now := max (now w) (due tm)\<rparr>)), (t, w))
               \<in> measure (\<lambda>(t, w). length (timers w))"
    by simp
qed

declare run_timers.simps [simp del]

definition advance :: "nat \<Rightarrow> world \<Rightarrow> world" where
  "advance d w = run_timers (now w + d) w"

text \<open>
  What can happen to a mounted component: time passes; the socket delivers a message; the
  document, the editor or the page calls one of the callbacks; a subscriber (the editor
  binding) calls a method of the awareness. A socket message reaches its handler only
  while the socket has a listener for it, and a destroyed document reports no update.
  \<open>SocketConnected sid\<close> is the socket connecting, or connecting again after a
  disconnect: from then on its \<^verbatim>\<open>id\<close> is \<open>sid\<close>.
  \<open>ModelContentChanged c\<close> is a change of the
  editor's content to \<open>c\<close>, which the editor reports to \<^verbatim>\<open>onDidChangeModelContent\<close>.
\<close>

datatype event =
    Advance nat
  | SocketYjsSync "int list"
  | SocketYjsAwareness jsval jsval
  | SocketRemoteCursor jsval position user
  | YdocUpdate "8 word list"
  | CursorPositionChanged position
  | ModelContentChanged string
  | EditorDisposed
  | Unmount
  | SocketConnected jsval
  | CallOn string handler
  | CallOff string handler
  | CallNotify string
  | CallSetLocalState jsval
  | CallSetLocalStateField string jsval

fun step :: "event \<Rightarrow> world \<Rightarrow> error + world" where
  "step (Advance d) w = Inr (advance d w)"
| "step (SocketYjsSync update) w =
     Inr (if ''yjs-sync'' \<in> socket_listeners w then on_yjs_sync update w else w)"
| "step (SocketYjsAwareness cid state) w =
     Inr (if ''yjs-awareness'' \<in> socket_listeners w then on_yjs_awareness cid state w else w)"
| "step (SocketRemoteCursor userId pos usr) w =
     Inr (if ''remote-cursor'' \<in> socket_listeners w then on_remote_cursor userId pos usr w else w)"
| "step (YdocUpdate update) w = Inr (if ydoc_destroyed w then w else on_ydoc_update update w)"
| "step (CursorPositionChanged pos) w = Inr (onDidChangeCursorPosition pos w)"
| "step (ModelContentChanged c) w =
     Inr (onDidChangeModelContent (w\<lparr>editor := (editor w)\<lparr>content := c\<rparr>\<rparr>))"
| "step EditorDisposed w = Inr (w\<lparr>editor := (editor w)\<lparr>isDisposed := True\<rparr>\<rparr>)"
| "step Unmount w = Inr (cleanup w)"
| "step (SocketConnected sid) w = Inr (w\<lparr>socket_id := sid\<rparr>)"
| "step (CallOn ev h) w = Inr (w\<lparr>awareness := on ev h (awareness w)\<rparr>)"
| "step (CallOff ev h) w = Inr (w\<lparr>awareness := off ev h (awareness w)\<rparr>)"
| "step (CallNotify ev) w = Inr (notify ev w)"
| "step (CallSetLocalState state) w = Inr (setLocalState state w)"
| "step (CallSetLocalStateField field v) w = setLocalStateField field v w"

text \<open>
  A run of events. A handler that throws ends there and the loop goes on with the next
  event; the one statement that can throw comes before every change of its handler that
  can be observed, so the state is the one before the event.
\<close>

fun run :: "event list \<Rightarrow> world \<Rightarrow> world" where
  "run [] w = w"
| "run (e # es) w = (case step e w of Inl err \<Rightarrow> run es w | Inr w1 \<Rightarrow> run es w1)"

section \<open>Facts about the event loop\<close>

text \<open>
  An assignment of a property changes the heap and the prototypes only, and
  \<^verbatim>\<open>setLocalStateField\<close> leaves the timers, the editor, the socket and the subscribers
  as they are.
\<close>

definition same_outside_state :: "world \<Rightarrow> world \<Rightarrow> bool" where
  "same_outside_state w w' \<longleftrightarrow>
     now w' = now w \<and> props w' = props w \<and> socket_id w' = socket_id w \<and>
     socket_listeners w' = socket_listeners w \<and> editor w' = editor w \<and>
     timers w' = timers w \<and> next_timer w' = next_timer w \<and> saveTimeout w' = saveTimeout w \<and>
     applied w' = applied w \<and> cursor_updates w' = cursor_updates w \<and>
     binding_destroyed w' = binding_destroyed w \<and> ydoc_destroyed w' = ydoc_destroyed w \<and>
     handlers (awareness w') = handlers (awareness w) \<and>
     clientID (awareness w') = clientID (awareness w)"

lemma assign_property_frame:
  "assign_property s field v w = Inr w' \<Longrightarrow>
   same_outside_state w w' \<and> awareness w' = awareness w \<and> emitted w' = emitted w \<and>
   calls w' = calls w \<and> next_addr w' = next_addr w"
  by (auto simp: assign_property_def proto_setter_def SetPrototypeOf_def same_outside_state_def
      split: jsval.splits if_splits)

lemma setLocalState_frame: "same_outside_state w (setLocalState state w)"
  by (simp add: same_outside_state_def setLocalState_def notify_def emit_def Let_def
      split: option.splits)

lemma setLocalStateField_frame:
  assumes "setLocalStateField field v w = Inr w'"
  shows "same_outside_state w w'"
proof -
  let ?s0 = "getLocalState (awareness w)"
  obtain s w1 where sw: "(if truthy ?s0 then (?s0, w)
        else (let (a, w0) = new_object Map.empty w in (JRef a, w0))) = (s, w1)"
    by (cases "if truthy ?s0 then (?s0, w)
        else (let (a, w0) = new_object Map.empty w in (JRef a, w0))") auto
  then have w1: "same_outside_state w w1"
    by (auto simp: same_outside_state_def new_object_def split: if_splits)
  from assms sw obtain w2 where a: "assign_property s field v w1 = Inr w2"
    and w': "w' = setLocalState s w2"
    by (auto simp: setLocalStateField_def Let_def split: sum.splits)
  from assign_property_frame [OF a] have "same_outside_state w1 w2" by simp
  with w1 setLocalState_frame [of w2 s] w' show ?thesis
    by (simp add: same_outside_state_def)
qed

lemma earliest_None: "earliest ts = None \<longleftrightarrow> ts = []"
  by (induction ts) (auto split: option.splits)

lemma earliest_le: "earliest ts = Some tm \<Longrightarrow> x \<in> set ts \<Longrightarrow> due tm \<le> due x"
  by (induction ts arbitrary: tm) (fastforce simp: earliest_None split: option.splits if_splits)+

lemma next_due_None: "next_due t ts = None \<Longrightarrow> x \<in> set ts \<Longrightarrow> t < due x"
  by (auto simp: next_due_def earliest_None split: option.splits if_splits dest: earliest_le)

lemma next_due_le: "next_due t ts = Some tm \<Longrightarrow> due tm \<le> t"
  by (auto simp: next_due_def split: option.splits if_splits)

text \<open>
  Firing timers touches the pending timers, the clock, the socket's log and the editor's
  decorations, and nothing else.
\<close>

definition same_outside_timers :: "world \<Rightarrow> world \<Rightarrow> bool" where
  "same_outside_timers w w' \<longleftrightarrow>
     props w' = props w \<and> socket_id w' = socket_id w \<and> socket_listeners w' = socket_listeners w \<and>
     heap w' = heap w \<and> protos w' = protos w \<and> next_addr w' = next_addr w \<and>
     awareness w' = awareness w \<and>
     calls w' = calls w \<and> next_timer w' = next_timer w \<and> saveTimeout w' = saveTimeout w \<and>
     applied w' = applied w \<and> cursor_updates w' = cursor_updates w \<and>
     binding_destroyed w' = binding_destroyed w \<and> ydoc_destroyed w' = ydoc_destroyed w \<and>
     content (editor w') = content (editor w) \<and> isDisposed (editor w') = isDisposed (editor w) \<and>
     next_decoration (editor w') = next_decoration (editor w)"

lemma fire_frame: "same_outside_timers w (fire tm w)"
  by (simp add: same_outside_timers_def fire_def save_callback_def expire_callback_def emit_def
      deltaDecorations_def split: callback.splits)

lemma run_timers_frame: "same_outside_timers w (run_timers t w)"
proof (induction t w rule: run_timers.induct)
  case (1 t w)
  show ?case
  proof (cases "next_due t (timers w)")
    case None
    then show ?thesis
      by (subst run_timers.simps) (simp add: same_outside_timers_def)
  next
    case (Some tm)
    let ?w1 = "w\<lparr>timers := remove1 tm (timers w), now := max (now w) (due tm)\<rparr>"
    have "same_outside_timers (fire tm ?w1) (run_timers t (fire tm ?w1))"
      using 1 Some by simp
    moreover have "same_outside_timers ?w1 (fire tm ?w1)" by (rule fire_frame)
    ultimately show ?thesis using Some
      by (subst run_timers.simps) (simp add: same_outside_timers_def)
  qed
qed

lemma run_timers_timers: "timers (run_timers t w) = filter (\<lambda>tm. t < due tm) (timers w)"
proof (induction t w rule: run_timers.induct)
  case (1 t w)
  show ?case
  proof (cases "next_due t (timers w)")
    case None
    then have "filter (\<lambda>tm. t < due tm) (timers w) = timers w"
      by (auto intro!: filter_True dest: next_due_None)
    with None show ?thesis
      by (subst run_timers.simps) simp
  next
    case (Some tm)
    have "filter (\<lambda>x. t < due x) (remove1 tm (timers w)) = filter (\<lambda>x. t < due x) (timers w)"
      using next_due_le [OF Some] by (induction "timers w") (auto simp: filter_remove1)
    with 1 Some show ?thesis
      by (subst run_timers.simps) simp
  qed
qed

lemma now_fire [simp]: "now (fire tm w) = now w"
  by (simp add: fire_def save_callback_def expire_callback_def emit_def split: callback.splits)

lemma run_timers_now: "now (run_timers t w) = max (now w) t"
proof (induction t w rule: run_timers.induct)
  case (1 t w)
  show ?case
  proof (cases "next_due t (timers w)")
    case None
    then show ?thesis by (subst run_timers.simps) simp
  next
    case (Some tm)
    with 1 next_due_le [OF Some] show ?thesis
      by (subst run_timers.simps) simp
  qed
qed

lemma advance_frame: "same_outside_timers w (advance d w)"
  by (simp add: advance_def run_timers_frame)

lemma fire_expiry_disposed:
  "isDisposed (editor w) \<Longrightarrow> cb tm \<noteq> SaveCb \<Longrightarrow> fire tm w = w"
  by (cases "cb tm") (simp_all add: fire_def expire_callback_def)

lemma filter_later_remove1:
  "due tm \<le> t \<Longrightarrow> filter (\<lambda>x. t < due x) (remove1 tm ts) = filter (\<lambda>x. t < due x) ts"
  by (induction ts) auto

lemma run_timers_disposed:
  "isDisposed (editor w) \<Longrightarrow> \<forall>tm\<in>set (timers w). due tm \<le> t \<longrightarrow> cb tm \<noteq> SaveCb \<Longrightarrow>
   run_timers t w = w\<lparr>timers := filter (\<lambda>tm. t < due tm) (timers w), now := max (now w) t\<rparr>"
proof (induction t w rule: run_timers.induct)
  case (1 t w)
  show ?case
  proof (cases "next_due t (timers w)")
    case None
    then have "filter (\<lambda>tm. t < due tm) (timers w) = timers w"
      by (auto intro!: filter_True dest: next_due_None)
    with None show ?thesis
      by (subst run_timers.simps) simp
  next
    case (Some tm)
    let ?w1 = "w\<lparr>timers := remove1 tm (timers w), now := max (now w) (due tm)\<rparr>"
    have mem: "tm \<in> set (timers w)" and le: "due tm \<le> t"
      using Some by (auto dest: next_due_mem next_due_le)
    then have f: "fire tm ?w1 = ?w1"
      using "1.prems" by (intro fire_expiry_disposed) auto
    have "\<forall>x\<in>set (timers ?w1). due x \<le> t \<longrightarrow> cb x \<noteq> SaveCb"
      using "1.prems"(2) by (auto dest: notin_set_remove1)
    with "1.IH" [OF Some] f "1.prems"(1)
    have "run_timers t ?w1 =
            ?w1\<lparr>timers := filter (\<lambda>x. t < due x) (timers ?w1), now := max (now ?w1) t\<rparr>"
      by simp
    then show ?thesis using Some f le
      by (subst run_timers.simps) (simp add: filter_later_remove1)
  qed
qed

section \<open>A mounted component to evaluate on\<close>

definition demo_props :: props where
  "demo_props = \<lparr>prop_roomId = ''r1'', prop_currentUser = \<lparr>name = ''Ann'', color = ''red''\<rparr>,
                 prop_language = ''javascript''\<rparr>"

definition demo_editor :: editor_state where
  "demo_editor = \<lparr>content = [], decorations = [], next_decoration = 0, removal_log = [],
                  isDisposed = False\<rparr>"

text \<open>The component of participant \<open>A\<close>, mounted at time 0 in room \<open>r1\<close>.\<close>

definition demo_world :: world where
  "demo_world =
     (case handleEditorDidMount demo_props (JStr ''A'') 0 demo_editor of
        Inl e \<Rightarrow> initial_world demo_props (JStr ''A'') 0 demo_editor
      | Inr w \<Rightarrow> w)"

lemmas mount_defs = handleEditorDidMount_def initial_world_def new_object_def
  setLocalStateField_def assign_property_def getLocalState_def map_get_def constructor_def setLocalState_def
  emit_def notify_def Let_def

lemma handleEditorDidMount_returns: "\<exists>w. handleEditorDidMount p sid t ed = Inr w"
  by (simp add: mount_defs)

lemma handleEditorDidMount_ids:
  "handleEditorDidMount p sid t ed = Inr w \<Longrightarrow>
   socket_id w = sid \<and> clientID (awareness w) = sid \<and> distinct_handlers (awareness w) event"
  by (auto simp: mount_defs distinct_handlers_def)

lemma demo_world_eq: "demo_world =
   \<lparr>now = 0, props = demo_props, socket_id = JStr ''A'',
    socket_listeners = {''yjs-sync'', ''yjs-awareness'', ''remote-cursor''},
    emitted = [(0, YjsAwarenessMsg ''r1'' (JStr ''A'') (JRef 1))],
    heap = (\<lambda>_. Map.empty)(0 := [''name'' \<mapsto> JStr ''Ann'', ''color'' \<mapsto> JStr ''red''],
                              1 := [''user'' \<mapsto> JRef 0]),
    protos = [], next_addr = 2,
    awareness = \<lparr>roomId = ''r1'', clientID = JStr ''A'', states = [JStr ''A'' \<mapsto> JRef 1],
                  handlers = Map.empty\<rparr>,
    calls = [], editor = demo_editor, timers = [], next_timer = 1, saveTimeout = None,
    applied = [], cursor_updates = [], binding_destroyed = False, ydoc_destroyed = False\<rparr>"
  by (simp add: demo_world_def mount_defs demo_props_def numeral_2_eq_2 insert_commute)

section \<open>The awareness registry\<close>

text \<open>The handlers one \<^verbatim>\<open>notify(event)\<close> invokes, in the order of the calls.\<close>

definition notified :: "string \<Rightarrow> world \<Rightarrow> handler list" where
  "notified event w = map fst (drop (length (calls w)) (calls (notify event w)))"

lemma distinct_handlers_constructor: "distinct_handlers (constructor room cid) event"
  by (simp add: distinct_handlers_def constructor_def)

lemma distinct_handlers_on: "distinct_handlers a ev \<Longrightarrow> distinct_handlers (on event h a) ev"
  by (auto simp: distinct_handlers_def on_def set_add_def Let_def split: option.splits if_splits)

lemma distinct_handlers_off: "distinct_handlers a ev \<Longrightarrow> distinct_handlers (off event h a) ev"
  by (auto simp: distinct_handlers_def off_def set_delete_def distinct_removeAll
      split: option.splits if_splits)

lemma distinct_handlers_step:
  "distinct_handlers (awareness w) ev \<Longrightarrow> step e w = Inr w' \<Longrightarrow> distinct_handlers (awareness w') ev"
proof (cases e)
  case (Advance d)
  assume "distinct_handlers (awareness w) ev" "step e w = Inr w'"
  with Advance advance_frame [of w d] show ?thesis by (auto simp: same_outside_timers_def)
qed (auto simp: distinct_handlers_on distinct_handlers_off, auto simp: distinct_handlers_def
      on_yjs_sync_def on_yjs_awareness_def on_remote_cursor_def renderRemoteCursor_def
      deltaDecorations_def setTimeout_def on_ydoc_update_def
      onDidChangeCursorPosition_def onDidChangeModelContent_def clearTimeout_def cleanup_def
      setLocalState_def same_outside_state_def notify_def emit_def Let_def
      split: option.splits if_splits dest!: setLocalStateField_frame)

lemma count_list_distinct: "distinct xs \<Longrightarrow> x \<in> set xs \<Longrightarrow> count_list xs x = 1"
  by (induction xs) (auto simp: count_list_0_iff)

lemma map_fst_pair [simp]: "map (fst \<circ> (\<lambda>h. (h, s))) xs = xs"
  by (induction xs) auto

text \<open>
  Claim C8. Subscribing the same handler twice to the same event is idempotent: the second
  \<^verbatim>\<open>on(event, handler)\<close> changes nothing, and a \<^verbatim>\<open>notify(event)\<close> after the two calls
  invokes the handler exactly once. The handlers of the event are a \<^verbatim>\<open>Set\<close>, which
  the constructor, \<^verbatim>\<open>on\<close> and \<^verbatim>\<open>off\<close> keep free of duplicates.
\<close>

theorem on_twice_notify_once:
  assumes "distinct_handlers (awareness w) event"
  shows "on event h (on event h (awareness w)) = on event h (awareness w) \<and>
         count_list (notified event (w\<lparr>awareness := on event h (on event h (awareness w))\<rparr>)) h = 1"
  using assms
  by (auto simp: distinct_handlers_def on_def notified_def notify_def set_add_def Let_def
      count_list_0_iff count_list_distinct split: option.splits if_splits)

theorem on_twice_notify_once_witness:
  "on ''change'' 7 (on ''change'' 7 (awareness demo_world)) = on ''change'' 7 (awareness demo_world) \<and>
   count_list (notified ''change''
     (demo_world\<lparr>awareness := on ''change'' 7 (on ''change'' 7 (awareness demo_world))\<rparr>)) 7 = 1"
proof -
  have "distinct_handlers (awareness demo_world) ''change''"
    by (simp add: distinct_handlers_def demo_world_eq)
  then show ?thesis by (rule on_twice_notify_once)
qed

text \<open>
  Claim C9. \<^verbatim>\<open>setLocalState\<close> changes the entry of the local clientID only: the entry of
  every other clientID in \<^verbatim>\<open>getStates()\<close> is the same before and after the call.
\<close>

theorem setLocalState_other_entries:
  "c \<noteq> clientID (awareness w) \<Longrightarrow>
     getStates (awareness (setLocalState state w)) c = getStates (awareness w) c"
  by (simp add: setLocalState_def getStates_def notify_def emit_def Let_def split: option.splits)

theorem setLocalState_other_entries_witness:
  "getStates (awareness (setLocalState Null (on_yjs_awareness (JStr ''B'') (JNum 5) demo_world)))
     (JStr ''B'') = Some (JNum 5)"
  using setLocalState_other_entries
    [of "JStr ''B''" "on_yjs_awareness (JStr ''B'') (JNum 5) demo_world" Null]
  by (simp add: demo_world_eq on_yjs_awareness_def notify_def getStates_def)

text \<open>
  The guard of the \<^verbatim>\<open>yjs-awareness\<close> handler compares the message's clientID with the
  socket's \<^verbatim>\<open>id\<close> at the time of the message: a message that carries it is ignored, the
  component's state, with the states map and the subscribers, is left as it was and no
  handler is called; for every other clientID the stored state is replaced by the
  message's state, whole, and the subscribers stay.
\<close>

lemma on_yjs_awareness_guard:
  "(cid = socket_id w \<longrightarrow> on_yjs_awareness cid state w = w) \<and>
   (cid \<noteq> socket_id w \<longrightarrow>
      states (awareness (on_yjs_awareness cid state w)) = (states (awareness w))(cid \<mapsto> state) \<and>
      handlers (awareness (on_yjs_awareness cid state w)) = handlers (awareness w))"
  by (simp add: on_yjs_awareness_def notify_def Let_def split: option.splits)

text \<open>The component mounted before the socket has connected: its \<^verbatim>\<open>id\<close> is undefined.\<close>

definition demo_early :: world where
  "demo_early =
     (case handleEditorDidMount demo_props Undefined 0 demo_editor of
        Inl e \<Rightarrow> initial_world demo_props Undefined 0 demo_editor
      | Inr w \<Rightarrow> w)"

text \<open>
  Claim C4 does not hold of the code. The local entry is stored under the id the socket
  had when the component was mounted, and the guard reads the id the socket has when the
  message comes. After the socket has connected again, under the id \<open>A2\<close>, a message that
  carries the local clientID \<open>A\<close> passes the guard and replaces the local entry. The same
  happens to a component mounted before the socket has connected: its local entry is
  stored under \<^verbatim>\<open>undefined\<close>, and once the socket has an id a message without a clientID
  replaces it.
\<close>

theorem local_entry_overwritten_by_message:
  "clientID (awareness demo_world) = JStr ''A'' \<and>
   getLocalState (awareness demo_world) = JRef 1 \<and>
   getLocalState (awareness
     (run [SocketConnected (JStr ''A2''), SocketYjsAwareness (JStr ''A'') (JNum 9)] demo_world)) =
     JNum 9 \<and>
   clientID (awareness demo_early) = Undefined \<and>
   getLocalState (awareness demo_early) = JRef 1 \<and>
   getLocalState (awareness
     (run [SocketConnected (JStr ''A''), SocketYjsAwareness Undefined (JNum 9)] demo_early)) =
     JNum 9"
  by (simp add: demo_world_eq demo_early_def mount_defs on_yjs_awareness_def demo_props_def)

section \<open>The round trip of a delta\<close>

text \<open>
  Claim C10. The wire encoding of a delta round-trips: the bytes of a local update, listed
  as numbers by \<^verbatim>\<open>Array.from\<close> for the \<^verbatim>\<open>yjs-sync\<close> message and made a byte array again
  by \<^verbatim>\<open>new Uint8Array\<close> on receipt, are the original bytes, so the update given to
  \<^verbatim>\<open>Y.applyUpdate\<close> by the receiver is the update the sender's document produced.
\<close>

theorem delta_wire_roundtrip:
  "Uint8Array (Array_from update) = update \<and>
   emitted (on_ydoc_update update s) =
     emitted s @ [(now s, YjsSyncMsg (prop_roomId (props s)) (Array_from update))] \<and>
   applied (on_yjs_sync (Array_from update) r) = applied r @ [update]"
  by (simp add: Uint8Array_def Array_from_def on_ydoc_update_def on_yjs_sync_def emit_def map_idI)

theorem delta_wire_roundtrip_witness:
  "Uint8Array (Array_from [0, 127, 128, 255]) = [0, 127, 128, 255] \<and>
   Array_from [0, 127, 128, 255] = [0, 127, 128, 255]"
  using delta_wire_roundtrip [of "[0, 127, 128, 255]"] by (simp add: Array_from_def)

section \<open>A marker's expiry on a disposed editor\<close>

definition demo_pos :: position where
  "demo_pos = \<lparr>lineNumber = 3, column = 1\<rparr>"

definition demo_user :: user where
  "demo_user = \<lparr>name = ''Bob'', color = ''blue''\<rparr>"

text \<open>A marker of participant \<open>B\<close> is shown; then the editor is disposed.\<close>

definition demo_marked :: world where
  "demo_marked = run [SocketRemoteCursor (JStr ''B'') demo_pos demo_user] demo_world"

definition demo_disposed :: world where
  "demo_disposed = run [EditorDisposed] demo_marked"

lemmas cursor_defs = on_remote_cursor_def renderRemoteCursor_def deltaDecorations_def
  setTimeout_def Let_def

lemma demo_marked_eq: "demo_marked =
   demo_world\<lparr>cursor_updates := [(JStr ''B'', CursorEntry demo_pos demo_user)],
     editor := demo_editor\<lparr>decorations := [(0, \<lparr>owner = JStr ''B'', at = demo_pos\<rparr>)],
                            next_decoration := 1\<rparr>,
     timers := [\<lparr>tid = 1, due = 3000, cb = ExpireCb [0]\<rparr>], next_timer := 2\<rparr>"
  by (simp add: demo_marked_def demo_world_eq cursor_defs demo_editor_def numeral_2_eq_2)

text \<open>
  Claim C7. A marker's expiry timer that fires after the editor has been disposed does
  nothing: the callback leaves the whole state as it is (no call reaches the editor), and
  when the timers that fire are expiry timers, time passing changes the pending timers
  and the clock only. On an editor that is not disposed the callback removes the
  decorations of its ids.
\<close>

theorem expiry_after_dispose:
  "(isDisposed (editor w) \<longrightarrow>
      expire_callback ids w = w \<and>
      ((\<forall>tm\<in>set (timers w). due tm \<le> t \<longrightarrow> cb tm \<noteq> SaveCb) \<longrightarrow>
         run_timers t w = w\<lparr>timers := filter (\<lambda>tm. t < due tm) (timers w), now := max (now w) t\<rparr>)) \<and>
   (\<not> isDisposed (editor w) \<longrightarrow>
      expire_callback ids w =
        w\<lparr>editor := (editor w)\<lparr>decorations := filter (\<lambda>(i, d). i \<notin> set ids) (decorations (editor w)),
                                 removal_log := removal_log (editor w) @ ids\<rparr>\<rparr>)"
  by (auto simp: expire_callback_def deltaDecorations_def run_timers_disposed)

theorem expiry_after_dispose_witness:
  "expire_callback [0] demo_disposed = demo_disposed \<and>
   run_timers 3000 demo_disposed = demo_disposed\<lparr>timers := [], now := 3000\<rparr> \<and>
   decorations (editor (expire_callback [0] demo_marked)) = []"
proof -
  note e = expiry_after_dispose
  have d: "isDisposed (editor demo_disposed)" and n: "\<not> isDisposed (editor demo_marked)"
    and t: "\<forall>tm\<in>set (timers demo_disposed). due tm \<le> 3000 \<longrightarrow> cb tm \<noteq> SaveCb"
    and f: "filter (\<lambda>tm. 3000 < due tm) (timers demo_disposed) = []" "now demo_disposed = 0"
    by (simp_all add: demo_disposed_def demo_marked_eq demo_world_eq demo_editor_def)
  have "expire_callback [0] demo_disposed = demo_disposed"
    using e [of demo_disposed "[0]"] d by blast
  moreover have "run_timers 3000 demo_disposed = demo_disposed\<lparr>timers := [], now := 3000\<rparr>"
    using e [of demo_disposed "[0]" 3000] d t f by simp
  moreover have "decorations (editor (expire_callback [0] demo_marked)) = []"
    using e [of demo_marked "[0]"] n by (simp add: demo_marked_eq)
  ultimately show ?thesis by blast
qed

section \<open>The local state's object\<close>

text \<open>The values that are objects.\<close>

fun is_object :: "jsval \<Rightarrow> bool" where
  "is_object (JRef a) = True"
| "is_object v = False"

text \<open>
  Claim C2, as the code has it. For every field name other than \<^verbatim>\<open>__proto__\<close>, every
  value and every prior local state, \<^verbatim>\<open>setLocalStateField\<close> stores as the local state
  the prior record with that one field set, or a new object \<^verbatim>\<open>{field: value}\<close> when the
  prior state is absent or falsy. When a prior state object exists the new state is that
  same object, written in place: a reference obtained before the call sees the new
  field. No other field of it and no other object is changed. A prior state that is a
  truthy primitive makes the call throw a TypeError.
\<close>

theorem setLocalStateField_in_place:
  "field \<noteq> ''__proto__'' \<longrightarrow>
   (getLocalState (awareness w) = JRef a \<longrightarrow>
      (\<exists>w'. setLocalStateField field v w = Inr w' \<and>
            getLocalState (awareness w') = JRef a \<and>
            heap w' = (heap w)(a := (heap w a)(field \<mapsto> v)))) \<and>
   (\<not> truthy (getLocalState (awareness w)) \<longrightarrow>
      (\<exists>w'. setLocalStateField field v w = Inr w' \<and>
            getLocalState (awareness w') = JRef (next_addr w) \<and>
            heap w' = (heap w)(next_addr w := [field \<mapsto> v]))) \<and>
   (truthy (getLocalState (awareness w)) \<and> \<not> is_object (getLocalState (awareness w)) \<longrightarrow>
      setLocalStateField field v w = Inl TypeError)"
proof
  assume f: "field \<noteq> ''__proto__''"
  have fr: "heap (setLocalState s x) = heap x" "getLocalState (awareness (setLocalState s x)) = s"
    for s x
    by (simp_all add: setLocalState_def notify_def emit_def getLocalState_def map_get_def Let_def
        split: option.splits)
  show "(getLocalState (awareness w) = JRef a \<longrightarrow>
      (\<exists>w'. setLocalStateField field v w = Inr w' \<and>
            getLocalState (awareness w') = JRef a \<and>
            heap w' = (heap w)(a := (heap w a)(field \<mapsto> v)))) \<and>
   (\<not> truthy (getLocalState (awareness w)) \<longrightarrow>
      (\<exists>w'. setLocalStateField field v w = Inr w' \<and>
            getLocalState (awareness w') = JRef (next_addr w) \<and>
            heap w' = (heap w)(next_addr w := [field \<mapsto> v]))) \<and>
   (truthy (getLocalState (awareness w)) \<and> \<not> is_object (getLocalState (awareness w)) \<longrightarrow>
      setLocalStateField field v w = Inl TypeError)"
    using f
    by (cases "getLocalState (awareness w)")
       (simp_all add: setLocalStateField_def assign_property_def new_object_def fr Let_def)
qed

theorem setLocalStateField_in_place_witness:
  "\<exists>w'. setLocalStateField ''cursor'' (JNum 5) demo_world = Inr w' \<and>
        getLocalState (awareness w') = JRef 1 \<and>
        heap w' 1 = [''user'' \<mapsto> JRef 0, ''cursor'' \<mapsto> JNum 5]"
proof -
  have "getLocalState (awareness demo_world) = JRef 1"
    by (simp add: demo_world_eq getLocalState_def map_get_def)
  with setLocalStateField_in_place [of "''cursor''" demo_world 1 "JNum 5"]
  show ?thesis by (auto simp: demo_world_eq)
qed

text \<open>
  The claim as the specification words it fails: the state object obtained before the
  call (at address 1, without a field \<^verbatim>\<open>cursor\<close>) has the field after the call.
\<close>

theorem setLocalStateField_mutates_previous_state:
  "getLocalState (awareness demo_world) = JRef 1 \<and>
   heap demo_world 1 ''cursor'' = None \<and>
   \<not> isl (setLocalStateField ''cursor'' (JNum 5) demo_world) \<and>
   heap (projr (setLocalStateField ''cursor'' (JNum 5) demo_world)) 1 ''cursor'' = Some (JNum 5)"
  by (simp add: demo_world_eq setLocalStateField_def assign_property_def getLocalState_def
      map_get_def setLocalState_def notify_def emit_def Let_def)

section \<open>The debounced save\<close>

lemmas timer_eval = advance_def run_timers.simps next_due_def fire_def save_callback_def
  expire_callback_def emit_def getValue_def

text \<open>
  Claim C3 does not hold of the code. The cleanup leaves the pending timers as they are,
  so a save set before the teardown fires after it: the content changes at time 0, the
  component is torn down at 500, and at 2000 a \<^verbatim>\<open>save-code\<close> message is emitted.
\<close>

theorem save_fires_after_unmount:
  "timers (cleanup w) = timers w \<and>
   emitted (run [ModelContentChanged ''x'', Advance 500, Unmount] demo_world) = emitted demo_world \<and>
   emitted (run [ModelContentChanged ''x'', Advance 500, Unmount, Advance 1500] demo_world) =
     emitted demo_world @ [(2000, SaveCodeMsg ''r1'' ''x'' ''javascript'')]"
  by (simp add: cleanup_def demo_world_eq onDidChangeModelContent_def clearTimeout_def
      setTimeout_def timer_eval demo_props_def Let_def)

text \<open>The \<^verbatim>\<open>save-code\<close> messages emitted so far, and the save timers that are pending.\<close>

fun is_save :: "out_msg \<Rightarrow> bool" where
  "is_save (SaveCodeMsg room c lang) = True"
| "is_save m = False"

definition saves :: "world \<Rightarrow> (nat \<times> out_msg) list" where
  "saves w = filter (\<lambda>(t, m). is_save m) (emitted w)"

definition pending_saves :: "world \<Rightarrow> timer list" where
  "pending_saves w = filter (\<lambda>tm. cb tm = SaveCb) (timers w)"

definition save_inv :: "world \<Rightarrow> bool" where
  "save_inv w \<longleftrightarrow> (\<forall>tm\<in>set (timers w). cb tm = SaveCb \<longrightarrow> saveTimeout w = Some (tid tm))"

definition armed_save :: "nat \<Rightarrow> world \<Rightarrow> bool" where
  "armed_save D w \<longleftrightarrow> save_inv w \<and> now w \<le> D \<and> (\<exists>tm. pending_saves w = [tm] \<and> due tm = D)"

text \<open>
  A burst: each content change comes \<open>gap\<close> ms after the event before it and sets the
  content to \<open>c\<close>.
\<close>

fun burst_events :: "(nat \<times> string) list \<Rightarrow> event list" where
  "burst_events [] = []"
| "burst_events ((gap, c) # es) = Advance gap # ModelContentChanged c # burst_events es"

text \<open>The message the save callback emits when it runs in a state.\<close>

definition save_of :: "world \<Rightarrow> out_msg" where
  "save_of w = SaveCodeMsg (prop_roomId (props w)) (content (editor w)) (prop_language (props w))"

lemma saves_fire_expiry [simp]: "cb tm \<noteq> SaveCb \<Longrightarrow> saves (fire tm w) = saves w"
  by (cases "cb tm") (simp_all add: fire_def expire_callback_def saves_def)

lemma saves_fire_save: "cb tm = SaveCb \<Longrightarrow> saves (fire tm w) = saves w @ [(now w, save_of w)]"
  by (simp add: fire_def save_callback_def emit_def saves_def save_of_def getValue_def)

lemma save_of_fire [simp]: "save_of (fire tm w) = save_of w"
  using fire_frame [of w tm] by (simp add: save_of_def same_outside_timers_def)

lemma saves_upd [simp]: "saves (w\<lparr>timers := a, now := b\<rparr>) = saves w"
  by (simp add: saves_def)

lemma save_of_upd [simp]: "save_of (w\<lparr>timers := a, now := b\<rparr>) = save_of w"
  by (simp add: save_of_def)

lemma run_timers_no_save:
  "\<forall>tm\<in>set (timers w). cb tm = SaveCb \<longrightarrow> t < due tm \<Longrightarrow> saves (run_timers t w) = saves w"
proof (induction t w rule: run_timers.induct)
  case (1 t w)
  show ?case
  proof (cases "next_due t (timers w)")
    case None
    then show ?thesis by (subst run_timers.simps) (simp add: saves_def)
  next
    case (Some tm)
    let ?w1 = "w\<lparr>timers := remove1 tm (timers w), now := max (now w) (due tm)\<rparr>"
    have mem: "tm \<in> set (timers w)" and le: "due tm \<le> t"
      using Some by (auto dest: next_due_mem next_due_le)
    with "1.prems" have ns: "cb tm \<noteq> SaveCb" by auto
    have "\<forall>x\<in>set (timers (fire tm ?w1)). cb x = SaveCb \<longrightarrow> t < due x"
      using "1.prems" by (auto dest: notin_set_remove1)
    with "1.IH" [OF Some] have "saves (run_timers t (fire tm ?w1)) = saves (fire tm ?w1)" by simp
    also have "\<dots> = saves w" using ns by simp
    finally show ?thesis using Some by (subst run_timers.simps) simp
  qed
qed

lemma run_timers_one_save:
  "pending_saves w = [tm] \<Longrightarrow> due tm \<le> t \<Longrightarrow> now w \<le> due tm \<Longrightarrow>
   saves (run_timers t w) = saves w @ [(due tm, save_of w)]"
proof (induction t w rule: run_timers.induct)
  case (1 t w)
  have tm_in: "tm \<in> set (timers w)" and tm_save: "cb tm = SaveCb"
    using "1.prems"(1) filter_eq_ConsD [of "\<lambda>x. cb x = SaveCb" "timers w" tm "[]"]
    by (auto simp: pending_saves_def)
  show ?case
  proof (cases "next_due t (timers w)")
    case None
    with tm_in "1.prems"(2) show ?thesis by (auto dest: next_due_None)
  next
    case (Some x)
    let ?w1 = "w\<lparr>timers := remove1 x (timers w), now := max (now w) (due x)\<rparr>"
    have mem: "x \<in> set (timers w)" and le: "due x \<le> t"
      using Some by (auto dest: next_due_mem next_due_le)
    have first: "due x \<le> due tm"
      using Some tm_in by (auto simp: next_due_def split: option.splits if_splits dest: earliest_le)
    show ?thesis
    proof (cases "cb x = SaveCb")
      case True
      with mem have "x \<in> set (pending_saves w)" by (simp add: pending_saves_def)
      with "1.prems"(1) have x: "x = tm" by simp
      have "filter (\<lambda>y. cb y = SaveCb) (remove1 tm (timers w)) = []"
        using "1.prems"(1) by (simp add: pending_saves_def filter_remove1)
      then have "\<forall>y\<in>set (timers (fire tm ?w1)). cb y = SaveCb \<longrightarrow> t < due y"
        using x by (auto simp: filter_empty_conv)
      then have "saves (run_timers t (fire tm ?w1)) = saves (fire tm ?w1)"
        using x by (intro run_timers_no_save) simp
      also have "\<dots> = saves ?w1 @ [(now ?w1, save_of ?w1)]"
        using tm_save x by (simp add: saves_fire_save)
      also have "\<dots> = saves w @ [(due tm, save_of w)]"
        using x "1.prems"(3) by (simp add: max_def)
      finally show ?thesis using Some x by (subst run_timers.simps) simp
    next
      case False
      then have ne: "x \<noteq> tm" using tm_save by auto
      have "pending_saves (fire x ?w1) = [tm]"
        using "1.prems"(1) ne by (simp add: pending_saves_def filter_remove1)
      moreover have "now (fire x ?w1) \<le> due tm" using "1.prems"(3) first by simp
      ultimately have "saves (run_timers t (fire x ?w1)) = saves (fire x ?w1) @ [(due tm, save_of (fire x ?w1))]"
        using "1.IH" [OF Some] "1.prems"(2) by simp
      also have "\<dots> = saves w @ [(due tm, save_of w)]"
        using False by simp
      finally show ?thesis using Some by (subst run_timers.simps) simp
    qed
  qed
qed


lemma change_arms:
  fixes w :: world and c :: string
  defines "w' \<equiv> onDidChangeModelContent (w\<lparr>editor := (editor w)\<lparr>content := c\<rparr>\<rparr>)"
  assumes inv: "save_inv w"
  shows "armed_save (now w + 2000) w' \<and> saves w' = saves w \<and> content (editor w') = c \<and>
         props w' = props w \<and> now w' = now w"
proof -
  have none: "filter (\<lambda>tm. cb tm = SaveCb) (timers w) = []" if "saveTimeout w = None"
    using inv that by (auto simp: save_inv_def filter_empty_conv)
  have some: "filter (\<lambda>tm. cb tm = SaveCb) (filter (\<lambda>tm. tid tm \<noteq> i) (timers w)) = []"
    if "saveTimeout w = Some i" for i
    using inv that by (auto simp: save_inv_def filter_empty_conv)
  show ?thesis
  proof (cases "saveTimeout w")
    case None
    with none show ?thesis
      by (auto simp: w'_def onDidChangeModelContent_def clearTimeout_def setTimeout_def
          armed_save_def save_inv_def pending_saves_def saves_def Let_def filter_empty_conv)
  next
    case (Some i)
    with some [OF Some] show ?thesis
      by (auto simp: w'_def onDidChangeModelContent_def clearTimeout_def setTimeout_def
          armed_save_def save_inv_def pending_saves_def saves_def Let_def filter_empty_conv)
  qed
qed

lemma advance_before_save:
  assumes "armed_save D w" and "now w + g < D"
  shows "armed_save D (advance g w) \<and> saves (advance g w) = saves w \<and>
         content (editor (advance g w)) = content (editor w) \<and> props (advance g w) = props w \<and>
         now (advance g w) = now w + g"
proof -
  from assms(1) obtain tm where tm: "pending_saves w = [tm]" "due tm = D" and inv: "save_inv w"
    by (auto simp: armed_save_def)
  have fr: "same_outside_timers w (advance g w)" by (rule advance_frame)
  have ts: "timers (advance g w) = filter (\<lambda>x. now w + g < due x) (timers w)"
    by (simp add: advance_def run_timers_timers)
  have later: "\<forall>x\<in>set (timers w). cb x = SaveCb \<longrightarrow> now w + g < due x"
  proof (intro ballI impI)
    fix x assume "x \<in> set (timers w)" "cb x = SaveCb"
    then have "x \<in> set (pending_saves w)" by (simp add: pending_saves_def)
    with tm assms(2) show "now w + g < due x" by simp
  qed
  have "filter (\<lambda>x. cb x = SaveCb) (filter (\<lambda>x. now w + g < due x) (timers w)) =
        filter (\<lambda>x. now w + g < due x) (filter (\<lambda>x. cb x = SaveCb) (timers w))"
    by (simp add: conj_commute)
  also have "\<dots> = [tm]" using tm assms(2) by (simp add: pending_saves_def)
  finally have ps: "pending_saves (advance g w) = [tm]" by (simp add: pending_saves_def ts)
  have "save_inv (advance g w)"
    using inv fr by (auto simp: save_inv_def ts same_outside_timers_def)
  moreover have "now (advance g w) = now w + g" by (simp add: advance_def run_timers_now)
  moreover have "saves (advance g w) = saves w"
    unfolding advance_def using later by (rule run_timers_no_save)
  ultimately show ?thesis using ps tm assms(2) fr
    by (simp add: armed_save_def same_outside_timers_def)
qed

lemma advance_fires_save:
  assumes "armed_save D w" and "D \<le> now w + d"
  shows "saves (advance d w) = saves w @ [(D, save_of w)]"
proof -
  from assms(1) obtain tm where tm: "pending_saves w = [tm]" "due tm = D" and n: "now w \<le> D"
    by (auto simp: armed_save_def)
  show ?thesis
    unfolding advance_def using run_timers_one_save [OF tm(1), of "now w + d"] tm(2) assms(2) n
    by simp
qed

lemma burst_keeps_armed:
  "armed_save (now w + 2000) w \<Longrightarrow> \<forall>(gap, c)\<in>set es. gap < 2000 \<Longrightarrow>
   armed_save (now (run (burst_events es) w) + 2000) (run (burst_events es) w) \<and>
   saves (run (burst_events es) w) = saves w \<and>
   content (editor (run (burst_events es) w)) = last (content (editor w) # map snd es) \<and>
   props (run (burst_events es) w) = props w"
proof (induction es arbitrary: w)
  case Nil
  then show ?case by simp
next
  case (Cons e es)
  obtain gap c where e: "e = (gap, c)" by (cases e)
  let ?w1 = "advance gap w"
  let ?w2 = "onDidChangeModelContent (?w1\<lparr>editor := (editor ?w1)\<lparr>content := c\<rparr>\<rparr>)"
  have g: "gap < 2000" using Cons.prems(2) e by simp
  have a1: "armed_save (now w + 2000) ?w1 \<and> saves ?w1 = saves w \<and>
            content (editor ?w1) = content (editor w) \<and> props ?w1 = props w \<and> now ?w1 = now w + gap"
    using advance_before_save [OF Cons.prems(1), of gap] g by simp
  then have "save_inv ?w1" by (simp add: armed_save_def)
  from change_arms [OF this, where c = c]
  have a2: "armed_save (now ?w2 + 2000) ?w2 \<and> saves ?w2 = saves w \<and> content (editor ?w2) = c \<and>
            props ?w2 = props w"
    using a1 by simp
  have "\<forall>(gap, c)\<in>set es. gap < 2000" using Cons.prems(2) by simp
  with Cons.IH [of ?w2] a2 show ?case by (simp add: e)
qed

text \<open>
  Claim C5. A burst of content changes, each less than the debounce window of 2000 ms after
  the one before, emits no \<^verbatim>\<open>save-code\<close> message while it lasts, nor in the 2000 ms
  after its last change; when 2000 ms have passed since the last change, exactly one is
  emitted, stamped 2000 ms after the last change, and it carries the content the editor
  has when the timer fires, which is the content of the last change. \<open>save_inv\<close> says
  that \<^verbatim>\<open>saveTimeout\<close> names every pending save timer.
\<close>

theorem debounce_collapses_burst:
  assumes "save_inv w" and "\<forall>(gap, c)\<in>set es. gap < 2000"
  shows "let w1 = run (ModelContentChanged c0 # burst_events es) w in
     saves w1 = saves w \<and>
     (d < 2000 \<longrightarrow> saves (advance d w1) = saves w) \<and>
     (2000 \<le> d \<longrightarrow> saves (advance d w1) = saves w @
        [(now w1 + 2000,
          SaveCodeMsg (prop_roomId (props w)) (last (c0 # map snd es)) (prop_language (props w)))])"
proof -
  let ?w0 = "onDidChangeModelContent (w\<lparr>editor := (editor w)\<lparr>content := c0\<rparr>\<rparr>)"
  let ?w1 = "run (burst_events es) ?w0"
  have a0: "armed_save (now ?w0 + 2000) ?w0 \<and> saves ?w0 = saves w \<and> content (editor ?w0) = c0 \<and>
            props ?w0 = props w"
    using change_arms [OF assms(1), where c = c0] by simp
  with burst_keeps_armed [of ?w0 es] assms(2)
  have a1: "armed_save (now ?w1 + 2000) ?w1" and s1: "saves ?w1 = saves w"
    and c1: "content (editor ?w1) = last (c0 # map snd es)" and p1: "props ?w1 = props w"
    by simp_all
  have "saves (advance d ?w1) = saves w" if "d < 2000"
    using advance_before_save [OF a1, of d] that s1 by simp
  moreover have "saves (advance d ?w1) = saves w @ [(now ?w1 + 2000, save_of ?w1)]" if "2000 \<le> d"
    using advance_fires_save [OF a1, of d] that s1 by simp
  ultimately show ?thesis using s1 c1 p1 by (simp add: save_of_def Let_def)
qed

text \<open>The invariant holds when the component is mounted and every event keeps it.\<close>

lemma save_inv_mount: "handleEditorDidMount p sid t ed = Inr w \<Longrightarrow> save_inv w"
  by (auto simp: mount_defs save_inv_def)

lemma save_inv_step: "save_inv w \<Longrightarrow> step e w = Inr w' \<Longrightarrow> save_inv w'"
proof (cases e)
  case (Advance d)
  assume "save_inv w" "step e w = Inr w'"
  with Advance advance_frame [of w d] show ?thesis
    by (auto simp: save_inv_def advance_def run_timers_timers same_outside_timers_def)
next
  case (ModelContentChanged c)
  assume "save_inv w" "step e w = Inr w'"
  with ModelContentChanged change_arms [of w c] show ?thesis by (auto simp: armed_save_def)
qed (auto simp: save_inv_def on_yjs_sync_def on_yjs_awareness_def cursor_defs
      on_ydoc_update_def onDidChangeCursorPosition_def cleanup_def
      setLocalState_def same_outside_state_def
      notify_def emit_def split: option.splits if_splits dest!: setLocalStateField_frame)

lemma now_advance [simp]: "now (advance d w) = now w + d"
  by (simp add: advance_def run_timers_now)

lemma now_onDidChangeModelContent [simp]: "now (onDidChangeModelContent w) = now w"
  by (simp add: onDidChangeModelContent_def clearTimeout_def setTimeout_def Let_def
      split: option.splits)

theorem debounce_collapses_burst_witness:
  "saves (run (ModelContentChanged ''a'' # burst_events [(1, ''ab''), (1, ''abc'')]) demo_world) = [] \<and>
   saves (advance 1999 (run (ModelContentChanged ''a'' # burst_events [(1, ''ab''), (1, ''abc'')])
                            demo_world)) = [] \<and>
   saves (advance 2000 (run (ModelContentChanged ''a'' # burst_events [(1, ''ab''), (1, ''abc'')])
                            demo_world)) = [(2002, SaveCodeMsg ''r1'' ''abc'' ''javascript'')]"
proof -
  let ?w1 = "run (ModelContentChanged ''a'' # burst_events [(1, ''ab''), (1, ''abc'')]) demo_world"
  have i: "save_inv demo_world" and s: "saves demo_world = []"
    and p: "props demo_world = demo_props"
    by (simp_all add: save_inv_def saves_def demo_world_eq)
  have g: "\<forall>(gap, c)\<in>set [(1 :: nat, ''ab''), (1, ''abc'')]. gap < 2000" by simp
  have n: "now ?w1 = 2"
    by (simp add: demo_world_eq)
  note d = debounce_collapses_burst [OF i g, of "''a''", unfolded Let_def]
  show ?thesis using d [of 1999] d [of 2000] s p n by (simp add: demo_props_def)
qed

section \<open>The lifetime of a remote cursor marker\<close>

text \<open>
  The decoration ids a timer's callback will ask the editor to remove; how often the
  pending timers name an id; the ids named by the timers due by a time.
\<close>

fun expiry_ids :: "callback \<Rightarrow> nat list" where
  "expiry_ids SaveCb = []"
| "expiry_ids (ExpireCb ids) = ids"

definition mentions :: "nat \<Rightarrow> timer list \<Rightarrow> nat" where
  "mentions j ts = sum_list (map (\<lambda>tm. count_list (expiry_ids (cb tm)) j) ts)"

definition fired_ids :: "nat \<Rightarrow> timer list \<Rightarrow> nat set" where
  "fired_ids t ts = (\<Union>tm\<in>{tm \<in> set ts. due tm \<le> t}. set (expiry_ids (cb tm)))"

lemma editor_fire_disposed: "isDisposed (editor w) \<Longrightarrow> editor (fire tm w) = editor w"
  by (simp add: fire_def save_callback_def expire_callback_def emit_def split: callback.splits)

lemma isDisposed_run_timers [simp]: "isDisposed (editor (run_timers t w)) = isDisposed (editor w)"
  using run_timers_frame [of w t] by (simp add: same_outside_timers_def)

lemma isDisposed_fire [simp]: "isDisposed (editor (fire tm w)) = isDisposed (editor w)"
  using fire_frame [of w tm] by (simp add: same_outside_timers_def)

lemma run_timers_editor_disposed: "isDisposed (editor w) \<Longrightarrow> editor (run_timers t w) = editor w"
proof (induction t w rule: run_timers.induct)
  case (1 t w)
  show ?case
  proof (cases "next_due t (timers w)")
    case None
    then show ?thesis by (subst run_timers.simps) simp
  next
    case (Some tm)
    with 1 show ?thesis
      by (subst run_timers.simps) (simp add: editor_fire_disposed)
  qed
qed

lemma decorations_fire:
  "\<not> isDisposed (editor w) \<Longrightarrow>
   decorations (editor (fire tm w)) =
     filter (\<lambda>(i, d). i \<notin> set (expiry_ids (cb tm))) (decorations (editor w))"
  by (cases "cb tm")
     (simp_all add: fire_def save_callback_def expire_callback_def emit_def deltaDecorations_def)

lemma removal_log_fire:
  "\<not> isDisposed (editor w) \<Longrightarrow>
   removal_log (editor (fire tm w)) = removal_log (editor w) @ expiry_ids (cb tm)"
  by (cases "cb tm")
     (simp_all add: fire_def save_callback_def expire_callback_def emit_def deltaDecorations_def)

lemma fired_ids_remove1:
  assumes "tm \<in> set ts" and "due tm \<le> t"
  shows "fired_ids t ts = set (expiry_ids (cb tm)) \<union> fired_ids t (remove1 tm ts)"
proof -
  have "set ts = insert tm (set (remove1 tm ts))"
  proof (intro set_eqI iffI)
    fix x assume "x \<in> set ts"
    then show "x \<in> insert tm (set (remove1 tm ts))"
      by (cases "x = tm") (simp_all add: in_set_remove1)
  next
    fix x assume "x \<in> insert tm (set (remove1 tm ts))"
    then show "x \<in> set ts" using assms(1) set_remove1_subset [of tm ts] by auto
  qed
  then have "{x \<in> set ts. due x \<le> t} = insert tm {x \<in> set (remove1 tm ts). due x \<le> t}"
    using assms(2) by auto
  then show ?thesis by (simp add: fired_ids_def)
qed

lemma fired_ids_none: "next_due t ts = None \<Longrightarrow> fired_ids t ts = {}"
  by (fastforce simp: fired_ids_def dest: next_due_None)

lemma run_timers_decorations:
  "\<not> isDisposed (editor w) \<Longrightarrow>
   decorations (editor (run_timers t w)) =
     filter (\<lambda>(i, d). i \<notin> fired_ids t (timers w)) (decorations (editor w))"
proof (induction t w rule: run_timers.induct)
  case (1 t w)
  show ?case
  proof (cases "next_due t (timers w)")
    case None
    then show ?thesis by (subst run_timers.simps) (simp add: fired_ids_none)
  next
    case (Some tm)
    let ?w1 = "w\<lparr>timers := remove1 tm (timers w), now := max (now w) (due tm)\<rparr>"
    have mem: "tm \<in> set (timers w)" and le: "due tm \<le> t"
      using Some by (auto dest: next_due_mem next_due_le)
    have "decorations (editor (run_timers t (fire tm ?w1))) =
            filter (\<lambda>(i, d). i \<notin> fired_ids t (remove1 tm (timers w))) (decorations (editor (fire tm ?w1)))"
      using "1.IH" [OF Some] "1.prems" by simp
    also have "\<dots> = filter (\<lambda>(i, d). i \<notin> fired_ids t (timers w)) (decorations (editor w))"
      using "1.prems" by (auto simp: decorations_fire fired_ids_remove1 [OF mem le] intro!: filter_cong)
    finally show ?thesis using Some by (subst run_timers.simps) simp
  qed
qed

lemma mentions_remove1:
  assumes "tm \<in> set ts" and "due tm \<le> t"
  shows "mentions j (filter (\<lambda>x. due x \<le> t) ts) =
         count_list (expiry_ids (cb tm)) j + mentions j (filter (\<lambda>x. due x \<le> t) (remove1 tm ts))"
proof -
  have "tm \<in> set (filter (\<lambda>x. due x \<le> t) ts)" using assms by simp
  then show ?thesis
    unfolding mentions_def filter_remove1 by (rule sum_list_map_remove1)
qed

lemma mentions_none: "next_due t ts = None \<Longrightarrow> filter (\<lambda>x. due x \<le> t) ts = []"
  by (fastforce simp: filter_empty_conv dest: next_due_None)

lemma run_timers_removal_count:
  "\<not> isDisposed (editor w) \<Longrightarrow>
   count_list (removal_log (editor (run_timers t w))) j =
     count_list (removal_log (editor w)) j + mentions j (filter (\<lambda>x. due x \<le> t) (timers w))"
proof (induction t w rule: run_timers.induct)
  case (1 t w)
  show ?case
  proof (cases "next_due t (timers w)")
    case None
    then show ?thesis by (subst run_timers.simps) (simp add: mentions_none mentions_def)
  next
    case (Some tm)
    let ?w1 = "w\<lparr>timers := remove1 tm (timers w), now := max (now w) (due tm)\<rparr>"
    have mem: "tm \<in> set (timers w)" and le: "due tm \<le> t"
      using Some by (auto dest: next_due_mem next_due_le)
    have "count_list (removal_log (editor (run_timers t (fire tm ?w1)))) j =
            count_list (removal_log (editor (fire tm ?w1))) j +
            mentions j (filter (\<lambda>x. due x \<le> t) (remove1 tm (timers w)))"
      using "1.IH" [OF Some] "1.prems" by simp
    also have "\<dots> = count_list (removal_log (editor w)) j + mentions j (filter (\<lambda>x. due x \<le> t) (timers w))"
      using "1.prems" by (simp add: removal_log_fire mentions_remove1 [OF mem le])
    finally show ?thesis using Some by (subst run_timers.simps) simp
  qed
qed


text \<open>
  Timer ids are given out in increasing order, and \<^verbatim>\<open>saveTimeout\<close> is the id of a save
  timer, so that clearing it clears no marker's timer.
\<close>

definition tid_inv :: "world \<Rightarrow> bool" where
  "tid_inv w \<longleftrightarrow>
     (\<forall>tm\<in>set (timers w). tid tm < next_timer w) \<and>
     (case saveTimeout w of None \<Rightarrow> True | Some i \<Rightarrow> i < next_timer w) \<and>
     (\<forall>tm\<in>set (timers w). saveTimeout w = Some (tid tm) \<longrightarrow> cb tm = SaveCb)"

lemma tid_inv_alt:
  "tid_inv w \<longleftrightarrow>
     (\<forall>tm\<in>set (timers w). tid tm < next_timer w) \<and>
     (\<forall>i. saveTimeout w = Some i \<longrightarrow> i < next_timer w) \<and>
     (\<forall>tm\<in>set (timers w). saveTimeout w = Some (tid tm) \<longrightarrow> cb tm = SaveCb)"
  by (auto simp: tid_inv_def split: option.splits)

text \<open>
  Decoration ids are given out in increasing order: the ids that pending timers and past
  removal requests name have been given out.
\<close>

definition wf_timers :: "world \<Rightarrow> bool" where
  "wf_timers w \<longleftrightarrow>
     tid_inv w \<and>
     (\<forall>tm\<in>set (timers w). \<forall>i\<in>set (expiry_ids (cb tm)). i < next_decoration (editor w)) \<and>
     (\<forall>i\<in>set (removal_log (editor w)). i < next_decoration (editor w))"

text \<open>
  A marker \<open>j\<close> is armed when it is shown, no removal of it was requested, and exactly one
  pending timer names it, once, due at \<open>D\<close>, which is still ahead. It is spent when it is
  not shown, its removal was requested exactly once and no pending timer names it.
\<close>

definition armed :: "nat \<Rightarrow> decoration \<Rightarrow> nat \<Rightarrow> world \<Rightarrow> bool" where
  "armed j m D w \<longleftrightarrow>
     tid_inv w \<and> \<not> isDisposed (editor w) \<and> now w < D \<and>
     (j, m) \<in> set (decorations (editor w)) \<and> j \<notin> set (removal_log (editor w)) \<and>
     j < next_decoration (editor w) \<and> mentions j (timers w) = 1 \<and>
     (\<forall>tm\<in>set (timers w). j \<in> set (expiry_ids (cb tm)) \<longrightarrow> due tm = D)"

definition spent :: "nat \<Rightarrow> world \<Rightarrow> bool" where
  "spent j w \<longleftrightarrow>
     tid_inv w \<and> j \<notin> fst ` set (decorations (editor w)) \<and>
     count_list (removal_log (editor w)) j = 1 \<and>
     j < next_decoration (editor w) \<and> mentions j (timers w) = 0"

text \<open>The time that passes in an event, and in a list of events.\<close>

fun duration :: "event \<Rightarrow> nat" where
  "duration (Advance d) = d"
| "duration e = 0"

definition elapsed :: "event list \<Rightarrow> nat" where
  "elapsed es = sum_list (map duration es)"

text \<open>The events that reach the timers or the editor.\<close>

fun touches_markers :: "event \<Rightarrow> bool" where
  "touches_markers (Advance d) = True"
| "touches_markers (SocketRemoteCursor userId pos usr) = True"
| "touches_markers (ModelContentChanged c) = True"
| "touches_markers EditorDisposed = True"
| "touches_markers e = False"

lemma step_plain:
  "\<not> touches_markers e \<Longrightarrow> step e w = Inr w' \<Longrightarrow>
   timers w' = timers w \<and> editor w' = editor w \<and> next_timer w' = next_timer w \<and>
   saveTimeout w' = saveTimeout w \<and> now w' = now w"
  by (cases e)
     (auto simp: on_yjs_sync_def on_yjs_awareness_def on_ydoc_update_def
        onDidChangeCursorPosition_def cleanup_def setLocalState_def same_outside_state_def
        notify_def emit_def Let_def split: option.splits if_splits
        dest!: setLocalStateField_frame)

lemma step_error_duration: "step e w = Inl err \<Longrightarrow> duration e = 0"
  by (cases e) auto

lemma mentions_append [simp]: "mentions j (xs @ ys) = mentions j xs + mentions j ys"
  by (simp add: mentions_def)

lemma mentions_zero_iff:
  "mentions j ts = 0 \<longleftrightarrow> (\<forall>tm\<in>set ts. j \<notin> set (expiry_ids (cb tm)))"
  by (induction ts) (auto simp: mentions_def count_list_0_iff)

lemma mentions_filter_same:
  "\<forall>tm\<in>set ts. \<not> P tm \<longrightarrow> j \<notin> set (expiry_ids (cb tm)) \<Longrightarrow> mentions j (filter P ts) = mentions j ts"
  by (induction ts) (auto simp: mentions_def count_list_0_iff)

lemma mentions_filter_zero:
  "\<forall>tm\<in>set ts. P tm \<longrightarrow> j \<notin> set (expiry_ids (cb tm)) \<Longrightarrow> mentions j (filter P ts) = 0"
  by (simp add: mentions_zero_iff)

lemma mentions_split:
  "mentions j ts = mentions j (filter (\<lambda>x. due x \<le> t) ts) + mentions j (filter (\<lambda>x. t < due x) ts)"
  by (induction ts) (auto simp: mentions_def)


lemma advance_timers: "timers (advance d w) = filter (\<lambda>x. now w + d < due x) (timers w)"
  by (simp add: advance_def run_timers_timers)

lemma advance_same:
  "next_timer (advance d w) = next_timer w" "saveTimeout (advance d w) = saveTimeout w"
  "isDisposed (editor (advance d w)) = isDisposed (editor w)"
  "next_decoration (editor (advance d w)) = next_decoration (editor w)"
  using advance_frame [of w d] by (simp_all add: same_outside_timers_def)

lemma tid_inv_advance: "tid_inv w \<Longrightarrow> tid_inv (advance d w)"
  by (auto simp: tid_inv_alt advance_timers advance_same)

lemma tid_inv_cursor: "tid_inv w \<Longrightarrow> tid_inv (on_remote_cursor userId pos usr w)"
  by (fastforce simp: tid_inv_alt cursor_defs)

lemma tid_inv_change:
  "tid_inv w \<Longrightarrow> tid_inv (onDidChangeModelContent (w\<lparr>editor := (editor w)\<lparr>content := c\<rparr>\<rparr>))"
  by (cases "saveTimeout w")
     (fastforce simp: tid_inv_alt onDidChangeModelContent_def clearTimeout_def setTimeout_def Let_def)+

lemma tid_inv_step: "tid_inv w \<Longrightarrow> step e w = Inr w' \<Longrightarrow> tid_inv w'"
proof (cases "touches_markers e")
  case False
  assume "tid_inv w" "step e w = Inr w'"
  with step_plain [OF False, of w w'] show ?thesis by (simp add: tid_inv_alt)
next
  case True
  assume "tid_inv w" "step e w = Inr w'"
  with True show ?thesis
    by (cases e) (auto simp: tid_inv_advance tid_inv_cursor tid_inv_change, simp add: tid_inv_alt)
qed

lemma advance_decorations:
  "\<not> isDisposed (editor w) \<Longrightarrow>
   decorations (editor (advance d w)) =
     filter (\<lambda>(i, m). i \<notin> fired_ids (now w + d) (timers w)) (decorations (editor w))"
  by (simp add: advance_def run_timers_decorations)

lemma advance_removal_count:
  "\<not> isDisposed (editor w) \<Longrightarrow>
   count_list (removal_log (editor (advance d w))) j =
     count_list (removal_log (editor w)) j + mentions j (filter (\<lambda>x. due x \<le> now w + d) (timers w))"
  by (simp add: advance_def run_timers_removal_count)

lemma armed_advance_before:
  assumes "armed j m D w" and "now w + d < D"
  shows "armed j m D (advance d w)"
proof -
  let ?t = "now w + d"
  from assms(1) have nd: "\<not> isDisposed (editor w)" and live: "(j, m) \<in> set (decorations (editor w))"
    and nolog: "j \<notin> set (removal_log (editor w))" and one: "mentions j (timers w) = 1"
    and at: "\<forall>tm\<in>set (timers w). j \<in> set (expiry_ids (cb tm)) \<longrightarrow> due tm = D"
    and ti: "tid_inv w" and lt: "j < next_decoration (editor w)"
    by (simp_all add: armed_def)
  have early: "mentions j (filter (\<lambda>x. due x \<le> ?t) (timers w)) = 0"
    using at assms(2) by (intro mentions_filter_zero) auto
  have "j \<notin> fired_ids ?t (timers w)"
    using at assms(2) by (auto simp: fired_ids_def)
  then have "(j, m) \<in> set (decorations (editor (advance d w)))"
    using live nd by (simp add: advance_decorations)
  moreover have "j \<notin> set (removal_log (editor (advance d w)))"
    using nolog early nd by (simp add: count_list_0_iff [symmetric] advance_removal_count)
  moreover have "mentions j (timers (advance d w)) = 1"
    using one early mentions_split [of j "timers w" ?t] by (simp add: advance_timers)
  moreover have "\<forall>tm\<in>set (timers (advance d w)). j \<in> set (expiry_ids (cb tm)) \<longrightarrow> due tm = D"
    using at by (simp add: advance_timers)
  ultimately show ?thesis
    using nd ti lt assms(2) by (simp add: armed_def advance_same tid_inv_advance)
qed

lemma armed_advance_after:
  assumes "armed j m D w" and "D \<le> now w + d"
  shows "spent j (advance d w)"
proof -
  let ?t = "now w + d"
  from assms(1) have nd: "\<not> isDisposed (editor w)"
    and nolog: "j \<notin> set (removal_log (editor w))" and one: "mentions j (timers w) = 1"
    and at: "\<forall>tm\<in>set (timers w). j \<in> set (expiry_ids (cb tm)) \<longrightarrow> due tm = D"
    and ti: "tid_inv w" and lt: "j < next_decoration (editor w)"
    by (simp_all add: armed_def)
  have late: "mentions j (filter (\<lambda>x. ?t < due x) (timers w)) = 0"
    using at assms(2) by (intro mentions_filter_zero) auto
  with one mentions_split [of j "timers w" ?t]
  have early: "mentions j (filter (\<lambda>x. due x \<le> ?t) (timers w)) = 1" by simp
  from one have "\<not> (\<forall>tm\<in>set (timers w). j \<notin> set (expiry_ids (cb tm)))"
    by (simp add: mentions_zero_iff [symmetric])
  then obtain tm where "tm \<in> set (timers w)" "j \<in> set (expiry_ids (cb tm))" by auto
  with at assms(2) have "j \<in> fired_ids ?t (timers w)" by (auto simp: fired_ids_def)
  then have "j \<notin> fst ` set (decorations (editor (advance d w)))"
    using nd by (auto simp: advance_decorations)
  moreover have "count_list (removal_log (editor (advance d w))) j = 1"
    using nolog early nd by (simp add: advance_removal_count)
  moreover have "mentions j (timers (advance d w)) = 0"
    using late by (simp add: advance_timers)
  ultimately show ?thesis
    using ti lt by (simp add: spent_def advance_same tid_inv_advance)
qed

lemma spent_advance:
  assumes "spent j w"
  shows "spent j (advance d w)"
proof -
  let ?t = "now w + d"
  from assms have gone: "j \<notin> fst ` set (decorations (editor w))"
    and once: "count_list (removal_log (editor w)) j = 1" and none: "mentions j (timers w) = 0"
    and ti: "tid_inv w" and lt: "j < next_decoration (editor w)"
    by (simp_all add: spent_def)
  have z: "mentions j (filter P (timers w)) = 0" for P
    using none by (simp add: mentions_zero_iff)
  have "j \<notin> fst ` set (decorations (editor (advance d w))) \<and>
        count_list (removal_log (editor (advance d w))) j = 1"
  proof (cases "isDisposed (editor w)")
    case True
    then have "editor (advance d w) = editor w"
      by (simp add: advance_def run_timers_editor_disposed)
    with gone once show ?thesis by simp
  next
    case False
    with gone once z show ?thesis
      by (auto simp: advance_decorations advance_removal_count)
  qed
  then show ?thesis
    using ti lt z by (simp add: spent_def advance_same tid_inv_advance advance_timers)
qed


lemma armed_cong:
  "timers w' = timers w \<Longrightarrow> editor w' = editor w \<Longrightarrow> next_timer w' = next_timer w \<Longrightarrow>
   saveTimeout w' = saveTimeout w \<Longrightarrow> now w' = now w \<Longrightarrow> armed j m D w' = armed j m D w"
  by (simp add: armed_def tid_inv_alt)

lemma spent_cong:
  "timers w' = timers w \<Longrightarrow> editor w' = editor w \<Longrightarrow> next_timer w' = next_timer w \<Longrightarrow>
   saveTimeout w' = saveTimeout w \<Longrightarrow> spent j w' = spent j w"
  by (simp add: spent_def tid_inv_alt)

lemma cursor_effect:
  "timers (on_remote_cursor userId pos usr w) =
     timers w @ [\<lparr>tid = next_timer w, due = now w + 3000,
                  cb = ExpireCb [next_decoration (editor w)]\<rparr>] \<and>
   editor (on_remote_cursor userId pos usr w) =
     (editor w)\<lparr>decorations := decorations (editor w) @
                    [(next_decoration (editor w), \<lparr>owner = userId, at = pos\<rparr>)],
                 next_decoration := Suc (next_decoration (editor w))\<rparr> \<and>
   now (on_remote_cursor userId pos usr w) = now w"
  by (simp add: cursor_defs)

lemma armed_cursor: "armed j m D w \<Longrightarrow> armed j m D (on_remote_cursor userId pos usr w)"
  using tid_inv_cursor [of w userId pos usr]
  by (auto simp: armed_def cursor_effect mentions_def)

lemma spent_cursor: "spent j w \<Longrightarrow> spent j (on_remote_cursor userId pos usr w)"
  using tid_inv_cursor [of w userId pos usr]
  by (auto simp: spent_def cursor_effect mentions_def)

lemma change_effect:
  "editor (onDidChangeModelContent (w\<lparr>editor := (editor w)\<lparr>content := c\<rparr>\<rparr>)) = (editor w)\<lparr>content := c\<rparr> \<and>
   timers (onDidChangeModelContent (w\<lparr>editor := (editor w)\<lparr>content := c\<rparr>\<rparr>)) =
     (case saveTimeout w of None \<Rightarrow> timers w | Some i \<Rightarrow> filter (\<lambda>tm. tid tm \<noteq> i) (timers w))
     @ [\<lparr>tid = next_timer w, due = now w + 2000, cb = SaveCb\<rparr>]"
  by (simp add: onDidChangeModelContent_def clearTimeout_def setTimeout_def Let_def
      split: option.splits)

lemma mentions_change:
  assumes "tid_inv w"
  shows "mentions j (timers (onDidChangeModelContent (w\<lparr>editor := (editor w)\<lparr>content := c\<rparr>\<rparr>))) =
         mentions j (timers w)"
proof (cases "saveTimeout w")
  case None
  then show ?thesis by (simp add: change_effect mentions_def)
next
  case (Some i)
  have "mentions j (filter (\<lambda>tm. tid tm \<noteq> i) (timers w)) = mentions j (timers w)"
    using assms Some by (intro mentions_filter_same) (auto simp: tid_inv_alt)
  with Some show ?thesis by (simp add: change_effect) (simp add: mentions_def)
qed

lemma armed_change:
  assumes "armed j m D w"
  shows "armed j m D (onDidChangeModelContent (w\<lparr>editor := (editor w)\<lparr>content := c\<rparr>\<rparr>))"
proof -
  from assms have ti: "tid_inv w" by (simp add: armed_def)
  have "\<forall>tm\<in>set (timers (onDidChangeModelContent (w\<lparr>editor := (editor w)\<lparr>content := c\<rparr>\<rparr>))).
          j \<in> set (expiry_ids (cb tm)) \<longrightarrow> due tm = D"
    using assms by (auto simp: armed_def change_effect split: option.splits)
  then show ?thesis
    using assms tid_inv_change [OF ti, of c] mentions_change [OF ti, of j c]
    by (simp add: armed_def) (simp add: change_effect)
qed

lemma spent_change:
  assumes "spent j w"
  shows "spent j (onDidChangeModelContent (w\<lparr>editor := (editor w)\<lparr>content := c\<rparr>\<rparr>))"
proof -
  from assms have ti: "tid_inv w" by (simp add: spent_def)
  show ?thesis
    using assms tid_inv_change [OF ti, of c] mentions_change [OF ti, of j c]
    by (simp add: spent_def) (simp add: change_effect)
qed

lemma spent_step: "spent j w \<Longrightarrow> step e w = Inr w' \<Longrightarrow> spent j w'"
proof (cases "touches_markers e")
  case False
  assume "spent j w" "step e w = Inr w'"
  with step_plain [OF False, of w w'] spent_cong [of w' w j] show ?thesis by simp
next
  case True
  assume "spent j w" "step e w = Inr w'"
  with True show ?thesis
    by (cases e) (auto simp: spent_advance spent_cursor spent_change, simp add: spent_def tid_inv_alt)
qed

lemma spent_run: "spent j w \<Longrightarrow> spent j (run es w)"
proof (induction es arbitrary: w)
  case Nil
  then show ?case by simp
next
  case (Cons e es)
  then show ?case by (cases "step e w") (auto dest: spent_step)
qed

lemma armed_step:
  assumes "armed j m D w" and "e \<noteq> EditorDisposed" and "step e w = Inr w'"
  shows "now w' = now w + duration e \<and>
         (if now w + duration e < D then armed j m D w' else spent j w')"
proof (cases "touches_markers e")
  case False
  from assms(1) have "now w < D" by (simp add: armed_def)
  moreover from False have "duration e = 0" by (cases e) auto
  ultimately show ?thesis
    using step_plain [OF False assms(3)] armed_cong [of w' w j m D] assms(1) by simp
next
  case True
  from assms(1) have lt: "now w < D" by (simp add: armed_def)
  from True assms(2) consider d where "e = Advance d"
    | userId pos usr where "e = SocketRemoteCursor userId pos usr"
    | c where "e = ModelContentChanged c"
    by (cases e) auto
  then show ?thesis
  proof cases
    case 1
    with assms show ?thesis
      by (auto simp: armed_advance_before armed_advance_after)
  next
    case 2
    with assms lt show ?thesis by (auto simp: armed_cursor cursor_effect)
  next
    case 3
    with assms lt armed_change [OF assms(1), of c] show ?thesis
      by (auto simp: onDidChangeModelContent_def clearTimeout_def setTimeout_def Let_def
          split: option.splits)
  qed
qed

lemma elapsed_Cons [simp]: "elapsed (e # es) = duration e + elapsed es"
  by (simp add: elapsed_def)

lemma armed_run:
  "armed j m D w \<Longrightarrow> EditorDisposed \<notin> set es \<Longrightarrow>
   (now w + elapsed es < D \<longrightarrow> armed j m D (run es w)) \<and>
   (D \<le> now w + elapsed es \<longrightarrow> spent j (run es w))"
proof (induction es arbitrary: w)
  case Nil
  then show ?case by (simp add: elapsed_def armed_def)
next
  case (Cons e es)
  show ?case
  proof (cases "step e w")
    case (Inl err)
    with Cons step_error_duration [OF Inl] show ?thesis by simp
  next
    case (Inr w1)
    from Cons.prems have ne: "e \<noteq> EditorDisposed" and rest: "EditorDisposed \<notin> set es" by auto
    note st = armed_step [OF Cons.prems(1) ne Inr]
    show ?thesis
    proof (cases "now w + duration e < D")
      case True
      with st have "armed j m D w1" "now w1 = now w + duration e" by simp_all
      with Cons.IH [OF _ rest, of w1] Inr show ?thesis by (simp add: add.assoc)
    next
      case False
      with st have "spent j w1" by simp
      then have "spent j (run es w1)" by (rule spent_run)
      with False Inr show ?thesis by simp
    qed
  qed
qed


text \<open>
  The well-formedness holds when the component is mounted on an editor that was asked
  for no removal yet, and every event keeps it.
\<close>

lemma wf_timers_mount:
  "\<forall>i\<in>set (removal_log ed). i < next_decoration ed \<Longrightarrow>
   handleEditorDidMount p sid t ed = Inr w \<Longrightarrow> wf_timers w"
  by (auto simp: mount_defs wf_timers_def tid_inv_alt)

lemma wf_timers_advance:
  assumes "wf_timers w"
  shows "wf_timers (advance d w)"
proof -
  from assms have ti: "tid_inv w"
    and ids: "\<forall>tm\<in>set (timers w). \<forall>i\<in>set (expiry_ids (cb tm)). i < next_decoration (editor w)"
    and lg: "\<forall>i\<in>set (removal_log (editor w)). i < next_decoration (editor w)"
    by (simp_all add: wf_timers_def)
  have "i < next_decoration (editor w)" if "i \<in> set (removal_log (editor (advance d w)))" for i
  proof (cases "isDisposed (editor w)")
    case True
    then have "editor (advance d w) = editor w"
      by (simp add: advance_def run_timers_editor_disposed)
    with that lg show ?thesis by simp
  next
    case False
    from that have "count_list (removal_log (editor (advance d w))) i \<noteq> 0"
      by (simp add: count_list_0_iff)
    then have "i \<in> set (removal_log (editor w)) \<or>
               mentions i (filter (\<lambda>x. due x \<le> now w + d) (timers w)) \<noteq> 0"
      using False by (auto simp: advance_removal_count count_list_0_iff)
    then show ?thesis
      using lg ids by (auto simp: mentions_zero_iff)
  qed
  then show ?thesis
    using ti ids by (auto simp: wf_timers_def tid_inv_advance advance_timers advance_same)
qed

lemma wf_timers_step: "wf_timers w \<Longrightarrow> step e w = Inr w' \<Longrightarrow> wf_timers w'"
proof (cases "touches_markers e")
  case False
  assume "wf_timers w" "step e w = Inr w'"
  with step_plain [OF False, of w w'] show ?thesis by (simp add: wf_timers_def tid_inv_alt)
next
  case True
  assume w: "wf_timers w" and s: "step e w = Inr w'"
  then have ti: "tid_inv w" by (simp add: wf_timers_def)
  from True consider d where "e = Advance d"
    | userId pos usr where "e = SocketRemoteCursor userId pos usr"
    | c where "e = ModelContentChanged c" | "e = EditorDisposed"
    by (cases e) auto
  then show ?thesis
  proof cases
    case 1
    with w s show ?thesis by (auto simp: wf_timers_advance)
  next
    case 2
    with w s tid_inv_cursor [OF ti, of userId pos usr] show ?thesis
      by (auto simp: wf_timers_def cursor_effect less_Suc_eq)
  next
    case 3
    with w s tid_inv_change [OF ti, of c] show ?thesis
      by (auto simp: wf_timers_def change_effect split: option.splits)
  next
    case 4
    with w s show ?thesis by (auto simp: wf_timers_def tid_inv_alt)
  qed
qed

text \<open>The live markers of an owner.\<close>

definition markers_of :: "jsval \<Rightarrow> world \<Rightarrow> (nat \<times> decoration) list" where
  "markers_of u w = filter (\<lambda>(i, m). owner m = u) (decorations (editor w))"

text \<open>
  Claim C1, as the code has it. Handling a remote cursor-move event adds a new marker and
  leaves every marker that is shown in place, those of the same clientId too: no removal
  is requested. Whatever events follow (further cursor moves of the same or another
  clientId, content changes, messages, the teardown), as long as the editor is not
  disposed, the marker stays shown while less than the dwell time of 3000 ms has passed
  since its event, and once 3000 ms have passed it is gone and its removal has been
  requested exactly once, by its own expiry timer: never by a later event, and never
  twice.
\<close>

theorem marker_lifecycle:
  assumes "wf_timers w" and "\<not> isDisposed (editor w)" and "EditorDisposed \<notin> set es"
  shows "let j = next_decoration (editor w);
             m = \<lparr>owner = userId, at = pos\<rparr>;
             w1 = on_remote_cursor userId pos usr w;
             w2 = run es w1
         in decorations (editor w1) = decorations (editor w) @ [(j, m)] \<and>
            removal_log (editor w1) = removal_log (editor w) \<and>
            (elapsed es < 3000 \<longrightarrow>
               (j, m) \<in> set (decorations (editor w2)) \<and> j \<notin> set (removal_log (editor w2))) \<and>
            (3000 \<le> elapsed es \<longrightarrow>
               j \<notin> fst ` set (decorations (editor w2)) \<and>
               count_list (removal_log (editor w2)) j = 1)"
proof -
  let ?j = "next_decoration (editor w)"
  let ?m = "\<lparr>owner = userId, at = pos\<rparr>"
  let ?w1 = "on_remote_cursor userId pos usr w"
  from assms(1) have ti: "tid_inv w"
    and ids: "\<forall>tm\<in>set (timers w). \<forall>i\<in>set (expiry_ids (cb tm)). i < ?j"
    and lg: "\<forall>i\<in>set (removal_log (editor w)). i < ?j"
    by (simp_all add: wf_timers_def)
  have z: "mentions ?j (timers w) = 0" using ids by (auto simp: mentions_zero_iff)
  have "armed ?j ?m (now w + 3000) ?w1"
    using tid_inv_cursor [OF ti, of userId pos usr] assms(2) z ids lg
    by (auto simp: armed_def cursor_effect) (simp add: mentions_def)
  from armed_run [OF this assms(3)]
  have "(elapsed es < 3000 \<longrightarrow> armed ?j ?m (now w + 3000) (run es ?w1)) \<and>
        (3000 \<le> elapsed es \<longrightarrow> spent ?j (run es ?w1))"
    by (simp add: cursor_effect)
  then show ?thesis
    by (auto simp: Let_def cursor_effect armed_def spent_def)
qed

definition demo_pos2 :: position where
  "demo_pos2 = \<lparr>lineNumber = 3, column = 2\<rparr>"

theorem marker_lifecycle_witness:
  "(0, \<lparr>owner = JStr ''B'', at = demo_pos\<rparr>) \<in> set (decorations (editor
      (run [Advance 1000, SocketRemoteCursor (JStr ''B'') demo_pos2 demo_user, Advance 1999]
         (on_remote_cursor (JStr ''B'') demo_pos demo_user demo_world)))) \<and>
   0 \<notin> fst ` set (decorations (editor
      (run [Advance 1000, SocketRemoteCursor (JStr ''B'') demo_pos2 demo_user, Advance 2000]
         (on_remote_cursor (JStr ''B'') demo_pos demo_user demo_world)))) \<and>
   count_list (removal_log (editor
      (run [Advance 1000, SocketRemoteCursor (JStr ''B'') demo_pos2 demo_user, Advance 2000]
         (on_remote_cursor (JStr ''B'') demo_pos demo_user demo_world)))) 0 = 1"
proof -
  let ?es1 = "[Advance 1000, SocketRemoteCursor (JStr ''B'') demo_pos2 demo_user, Advance 1999]"
  let ?es2 = "[Advance 1000, SocketRemoteCursor (JStr ''B'') demo_pos2 demo_user, Advance 2000]"
  have w: "wf_timers demo_world" and d: "\<not> isDisposed (editor demo_world)"
    and j: "next_decoration (editor demo_world) = 0"
    by (simp_all add: wf_timers_def tid_inv_alt demo_world_eq demo_editor_def)
  have e1: "EditorDisposed \<notin> set ?es1" "elapsed ?es1 = 2999"
    and e2: "EditorDisposed \<notin> set ?es2" "elapsed ?es2 = 3000"
    by (simp_all add: elapsed_def)
  note l = marker_lifecycle [OF w d, unfolded Let_def j]
  show ?thesis
    using l [OF e1(1), of "JStr ''B''" demo_pos demo_user]
      l [OF e2(1), of "JStr ''B''" demo_pos demo_user] e1(2) e2(2)
    by simp
qed

text \<open>
  The claim as the specification words it fails: after two cursor moves of client \<open>B\<close>,
  1000 ms apart, two markers of \<open>B\<close> are shown at once, and the first was not removed.
\<close>

theorem two_markers_of_one_client:
  "map snd (markers_of (JStr ''B'')
      (run [SocketRemoteCursor (JStr ''B'') demo_pos demo_user, Advance 1000,
            SocketRemoteCursor (JStr ''B'') demo_pos2 demo_user] demo_world)) =
     [\<lparr>owner = JStr ''B'', at = demo_pos\<rparr>, \<lparr>owner = JStr ''B'', at = demo_pos2\<rparr>] \<and>
   removal_log (editor
      (run [SocketRemoteCursor (JStr ''B'') demo_pos demo_user, Advance 1000,
            SocketRemoteCursor (JStr ''B'') demo_pos2 demo_user] demo_world)) = []"
  by (simp add: markers_of_def demo_world_eq demo_editor_def cursor_defs timer_eval)

end
